theory Spec2Isabelle
  imports Main "HOL-Library.Word"
begin

section \<open>Block scan micro-demo (testScanBlock.cu): data model\<close>

text \<open>
  The program scans arrays of C \<^verbatim>\<open>int\<close>. An element is a 32-bit word; addition wraps
  around modulo \<open>2 ^ 32\<close>, as the two's complement hardware the program targets does.
  Memory is one flat array of words, a pointer is an index into it, and a buffer is a
  pointer together with the element count the callee is given. Two buffers may therefore
  overlap or coincide, as two C pointers may. An access past the end of memory is the
  fault \<open>OutOfBounds\<close>. Array sizes and loop counters (\<^verbatim>\<open>size_t\<close>) are natural numbers.
\<close>

type_synonym int32 = "32 word"
type_synonym heap = "int32 list"
type_synonym ptr = nat

datatype fault = OutOfBounds | InvalidConfiguration | DivideByZero

datatype ScanType = Inclusive | Exclusive

section \<open>CPU reference scans\<close>

text \<open>
  \<^verbatim>\<open>ScanExclusiveCPUPeriodic<period>\<close>, lines 64-76. The inner loop over \<open>j\<close> reads
  \<^verbatim>\<open>in[i+j]\<close> before it writes \<^verbatim>\<open>out[i+j]\<close>; the outer loop steps \<open>i\<close> by the period and
  restarts the running sum at 0. With period 0 the outer loop never advances: the outer
  loop is a partial function whose value \<open>None\<close> stands for not returning.
\<close>

function ScanExclusiveCPUPeriodic_inner ::
  "nat \<Rightarrow> ptr \<Rightarrow> ptr \<Rightarrow> nat \<Rightarrow> nat \<Rightarrow> int32 \<Rightarrow> heap \<Rightarrow> fault + heap" where
  "ScanExclusiveCPUPeriodic_inner period out inp i j s h =
     (if j < period then
        (if inp + i + j < length h \<and> out + i + j < length h then
           (let next = h ! (inp + i + j);
                h' = h[out + i + j := s]
            in ScanExclusiveCPUPeriodic_inner period out inp i (j + 1) (s + next) h')
         else Inl OutOfBounds)
      else Inr h)"
  by pat_completeness auto
termination
  by (relation "measure (\<lambda>(period, out, inp, i, j, s, h). period - j)") auto

partial_function (option) ScanExclusiveCPUPeriodic_outer ::
  "nat \<Rightarrow> ptr \<Rightarrow> ptr \<Rightarrow> nat \<Rightarrow> nat \<Rightarrow> heap \<Rightarrow> (fault + heap) option" where
  "ScanExclusiveCPUPeriodic_outer period out inp N i h =
     (if i < N then
        (case ScanExclusiveCPUPeriodic_inner period out inp i 0 0 h of
           Inl e \<Rightarrow> Some (Inl e)
         | Inr h' \<Rightarrow> ScanExclusiveCPUPeriodic_outer period out inp N (i + period) h')
      else Some (Inr h))"

declare ScanExclusiveCPUPeriodic_outer.simps [code]

definition ScanExclusiveCPUPeriodic ::
  "nat \<Rightarrow> ptr \<Rightarrow> ptr \<Rightarrow> nat \<Rightarrow> heap \<Rightarrow> (fault + heap) option" where
  "ScanExclusiveCPUPeriodic period out inp N h =
     ScanExclusiveCPUPeriodic_outer period out inp N 0 h"

text \<open>
  \<^verbatim>\<open>ScanInclusiveCPUPeriodic<period>\<close>, lines 78-89: the sum takes \<^verbatim>\<open>in[i+j]\<close> first and
  is then stored.
\<close>

function ScanInclusiveCPUPeriodic_inner ::
  "nat \<Rightarrow> ptr \<Rightarrow> ptr \<Rightarrow> nat \<Rightarrow> nat \<Rightarrow> int32 \<Rightarrow> heap \<Rightarrow> fault + heap" where
  "ScanInclusiveCPUPeriodic_inner period out inp i j s h =
     (if j < period then
        (if inp + i + j < length h \<and> out + i + j < length h then
           (let s' = s + h ! (inp + i + j);
                h' = h[out + i + j := s']
            in ScanInclusiveCPUPeriodic_inner period out inp i (j + 1) s' h')
         else Inl OutOfBounds)
      else Inr h)"
  by pat_completeness auto
termination
  by (relation "measure (\<lambda>(period, out, inp, i, j, s, h). period - j)") auto

partial_function (option) ScanInclusiveCPUPeriodic_outer ::
  "nat \<Rightarrow> ptr \<Rightarrow> ptr \<Rightarrow> nat \<Rightarrow> nat \<Rightarrow> heap \<Rightarrow> (fault + heap) option" where
  "ScanInclusiveCPUPeriodic_outer period out inp N i h =
     (if i < N then
        (case ScanInclusiveCPUPeriodic_inner period out inp i 0 0 h of
           Inl e \<Rightarrow> Some (Inl e)
         | Inr h' \<Rightarrow> ScanInclusiveCPUPeriodic_outer period out inp N (i + period) h')
      else Some (Inr h))"

declare ScanInclusiveCPUPeriodic_outer.simps [code]

definition ScanInclusiveCPUPeriodic ::
  "nat \<Rightarrow> ptr \<Rightarrow> ptr \<Rightarrow> nat \<Rightarrow> heap \<Rightarrow> (fault + heap) option" where
  "ScanInclusiveCPUPeriodic period out inp N h =
     ScanInclusiveCPUPeriodic_outer period out inp N 0 h"

text \<open>\<^verbatim>\<open>ScanCPU32<scantype>\<close>, lines 91-99.\<close>

definition ScanCPU32 :: "ScanType \<Rightarrow> ptr \<Rightarrow> ptr \<Rightarrow> nat \<Rightarrow> heap \<Rightarrow> (fault + heap) option" where
  "ScanCPU32 scantype out inp N h =
     (case scantype of
        Exclusive \<Rightarrow> ScanExclusiveCPUPeriodic 32 out inp N h
      | Inclusive \<Rightarrow> ScanInclusiveCPUPeriodic 32 out inp N h)"

text \<open>
  \<^verbatim>\<open>ScanCPUBlock<scantype>\<close>, lines 101-123. The outer switch has the cases 256, 512 and
  1024; each inner switch returns for both scan types, so no case falls through. Every
  other thread count, 128 included, takes \<^verbatim>\<open>default: return;\<close> and leaves memory as it is.
\<close>

definition ScanCPUBlock ::
  "ScanType \<Rightarrow> ptr \<Rightarrow> ptr \<Rightarrow> nat \<Rightarrow> int \<Rightarrow> heap \<Rightarrow> (fault + heap) option" where
  "ScanCPUBlock scantype out inp N numThreads h =
     (if numThreads = 256 then
        (case scantype of
           Exclusive \<Rightarrow> ScanExclusiveCPUPeriodic 256 out inp N h
         | Inclusive \<Rightarrow> ScanInclusiveCPUPeriodic 256 out inp N h)
      else if numThreads = 512 then
        (case scantype of
           Exclusive \<Rightarrow> ScanExclusiveCPUPeriodic 512 out inp N h
         | Inclusive \<Rightarrow> ScanInclusiveCPUPeriodic 512 out inp N h)
      else if numThreads = 1024 then
        (case scantype of
           Exclusive \<Rightarrow> ScanExclusiveCPUPeriodic 1024 out inp N h
         | Inclusive \<Rightarrow> ScanInclusiveCPUPeriodic 1024 out inp N h)
      else Some (Inr h))"

text \<open>
  \<^verbatim>\<open>RandomArray\<close>, lines 125-131. The C library's \<^verbatim>\<open>rand\<close> is a parameter: a step function
  on a generator state of any type, returning a value that is never negative. For such a
  value C's remainder by \<open>modulus\<close> is the remainder by its absolute value; a zero modulus
  is the fault \<open>DivideByZero\<close>.
\<close>

function RandomArray ::
  "('r \<Rightarrow> nat \<times> 'r) \<Rightarrow> ptr \<Rightarrow> nat \<Rightarrow> int \<Rightarrow> nat \<Rightarrow> heap \<times> 'r \<Rightarrow> fault + heap \<times> 'r" where
  "RandomArray rand out N modulus i (h, r) =
     (if i < N then
        (let (v, r') = rand r in
         if modulus = 0 then Inl DivideByZero
         else if out + i < length h then
           RandomArray rand out N modulus (i + 1)
             (h[out + i := word_of_int (int v mod \<bar>modulus\<bar>)], r')
         else Inl OutOfBounds)
      else Inr (h, r))"
  by pat_completeness auto
termination
  by (relation "measure (\<lambda>(rand, out, N, modulus, i, hr). N - i)") auto

declare RandomArray.simps [simp del]

section \<open>Warp and block scan primitives\<close>

text \<open>
  Modelled from the spec: \<^verbatim>\<open>scanWarp\<close> (scanWarp.cuh) is not among the sources. Section
  4.1: a log-step reduction over a group of lanes; at step \<open>k\<close> the lane at index \<open>i\<close> adds
  the value currently held by the lane at \<open>i - 2 ^ k\<close> when that index is within the
  group, and adds zero otherwise. The argument lists the values of the lanes of one group
  in lane order.
\<close>

definition scanWarp_step :: "nat \<Rightarrow> int32 list \<Rightarrow> int32 list" where
  "scanWarp_step k xs =
     map (\<lambda>i. if 2 ^ k \<le> i then xs ! i + xs ! (i - 2 ^ k) else xs ! i) [0..<length xs]"

text \<open>
  Modelled from the spec: the warp scan runs the steps \<open>k = 0, ..., log2 size - 1\<close>
  (section 4.1). The group is a warp of 32 lanes (the kernels of this file scan warps with
  \<^verbatim>\<open>inclusive_scan_warp_shfl<5>\<close> and check them against \<^verbatim>\<open>ScanCPU32\<close>), so there are 5
  steps.
\<close>

definition scanWarp :: "int32 list \<Rightarrow> int32 list" where
  "scanWarp xs = fold scanWarp_step [0..<5] xs"

text \<open>
  Modelled from the spec: \<^verbatim>\<open>scanWarpExclusive\<close> is not among the sources. Section 4.1:
  the exclusive scan is derived by subtracting the lane's own original value from its
  inclusive result.
\<close>

definition scanWarpExclusive :: "int32 list \<Rightarrow> int32 list" where
  "scanWarpExclusive xs = map2 (\<lambda>inclusive own. inclusive - own) (scanWarp xs) xs"

text \<open>
  Modelled from the spec: a block is an ordered sequence of groups (section 3); the
  lanes of a block are split into consecutive warps of 32.
\<close>

function warps :: "'a list \<Rightarrow> 'a list list" where
  "warps xs = (if xs = [] then [] else take 32 xs # warps (drop 32 xs))"
  by pat_completeness auto
termination
  by (relation "measure length") auto

declare warps.simps [simp del]

text \<open>
  Modelled from the spec: steps 2 and 3 of the two-level block scan (section 4.2). The
  last lane of each group writes the group's total, its inclusive sum at that lane, into
  an auxiliary buffer indexed by group number; the warp scan over that buffer gives the
  exclusive prefix sum per group, the carry-in.
\<close>

definition carry_in :: "int32 list list \<Rightarrow> int32 list" where
  "carry_in local_sums = scanWarpExclusive (map last local_sums)"

text \<open>
  Modelled from the spec: step 4 of the two-level block scan (section 4.2): each lane
  adds its group's carry-in to its own local scan result.
\<close>

definition add_carry :: "int32 list \<Rightarrow> int32 list list \<Rightarrow> int32 list" where
  "add_carry carry local_sums = concat (map2 (\<lambda>c l. map (\<lambda>v. c + v) l) carry local_sums)"

text \<open>
  Modelled from the spec: \<^verbatim>\<open>scanBlock\<close> (scanBlock.cuh) is not among the sources. Section
  4.2: each group runs the warp scan on its values, the carry-in of each group is
  computed from the groups' totals, and each lane adds its group's carry-in. The argument
  is the shared buffer \<^verbatim>\<open>sPartials\<close>, one slot per lane. The result is the value returned
  to each lane, paired with the shared buffer afterwards: the inclusive pass leaves each
  lane's sum resident in the lane's slot (section 4.2, exclusive variant).
\<close>

definition scanBlock :: "int32 list \<Rightarrow> int32 list \<times> int32 list" where
  "scanBlock sPartials =
     (let local_sums = map scanWarp (warps sPartials);
          sums = add_carry (carry_in local_sums) local_sums
      in (sums, sums))"

text \<open>
  Modelled from the spec: \<^verbatim>\<open>inclusive_scan_block<logBlockSize>\<close> is not among the sources.
  It is the block scan of section 4.2 over values held in registers (the shuffle
  strategy of section 4.1 exchanges the same values without shared memory). The argument
  lists the value of every lane of the block.
\<close>

definition inclusive_scan_block :: "nat \<Rightarrow> int32 list \<Rightarrow> int32 list" where
  "inclusive_scan_block logBlockSize vals =
     (let local_sums = map scanWarp (warps vals)
      in add_carry (carry_in local_sums) local_sums)"

text \<open>
  Modelled from the spec: \<^verbatim>\<open>exclusive_scan_block<logBlockSize>\<close> is not among the sources.
  Section 4.2, step 4 for the exclusive scan: each lane converts its own local result to
  exclusive and adds its group's carry-in.
\<close>

definition exclusive_scan_block :: "nat \<Rightarrow> int32 list \<Rightarrow> int32 list" where
  "exclusive_scan_block logBlockSize vals =
     (let carry = carry_in (map scanWarp (warps vals))
      in add_carry carry (map scanWarpExclusive (warps vals)))"

section \<open>GPU kernels and their launch\<close>

text \<open>
  A thread block runs in phases separated by \<^verbatim>\<open>__syncthreads()\<close>: in each phase every
  thread \<open>tid < blockDim.x\<close> executes the same statements on its own slot. A phase whose
  accesses do not conflict is modelled as one step over the list of all threads' values.
  \<open>load_threads\<close> is \<^verbatim>\<open>in[i+tid]\<close> read by every thread, \<open>store_threads\<close> is
  \<^verbatim>\<open>out[i+threadIdx.x] = myValue\<close> executed by every thread. An access past the end of
  memory is the fault \<open>OutOfBounds\<close>.
\<close>

definition load_threads :: "heap \<Rightarrow> ptr \<Rightarrow> nat \<Rightarrow> nat \<Rightarrow> fault + int32 list" where
  "load_threads h inp i blockDim =
     (if inp + i + blockDim \<le> length h
      then Inr (map (\<lambda>tid. h ! (inp + i + tid)) [0..<blockDim])
      else Inl OutOfBounds)"

definition store_threads :: "heap \<Rightarrow> ptr \<Rightarrow> nat \<Rightarrow> int32 list \<Rightarrow> fault + heap" where
  "store_threads h out i myValue =
     (if out + i + length myValue \<le> length h
      then Inr (map (\<lambda>a. if out + i \<le> a \<and> a < out + i + length myValue
                          then myValue ! (a - (out + i)) else h ! a) [0..<length h])
      else Inl OutOfBounds)"

text \<open>
  Line 182 of the kernel, \<^verbatim>\<open>myValue = (tid) ? sPartials[tid-1] : 0\<close>, executed by every
  thread after the barrier of line 181.
\<close>

definition exclusive_from_slots :: "int32 list \<Rightarrow> int32 list" where
  "exclusive_from_slots sPartials =
     map (\<lambda>tid. if tid \<noteq> 0 then sPartials ! (tid - 1) else 0) [0..<length sPartials]"

text \<open>
  No barrier stands between the read \<^verbatim>\<open>sPartials[tid-1]\<close> of line 182 and the write
  \<^verbatim>\<open>sPartials[tid] = in[i+tid]\<close> of line 177 in the next turn of the loop. A thread that
  has read its neighbour's slot stores its result (line 184), enters the next iteration
  when there is one, overwrites its own slot with its next input (line 177) and only then
  waits, at the barrier of line 178. The thread \<open>t + 1\<close> that reads slot \<open>t\<close> may by then not
  have read it yet: it finds the inclusive sum that \<^verbatim>\<open>scanBlock\<close> left there, or the next
  input of thread \<open>t\<close>. The program does not determine which: it is decided by the
  scheduling of the threads, which the kernel takes as the parameter \<open>ahead\<close>. In the
  iteration that starts at \<open>i\<close>, \<open>ahead i t\<close> says that thread \<open>t\<close> has written slot \<open>t\<close> for the
  next iteration before thread \<open>t + 1\<close> reads the slot. Threads 31 and 32 belong to two
  warps, so that \<open>ahead i 31\<close> can hold also where the threads of one warp run in lockstep.
  A thread cannot be further ahead than that: the barrier of line 178 holds it until
  every thread of the block has finished the iteration before.

  \<open>slots_when_read\<close> is the shared buffer as its readers find it, slot \<open>t\<close> having one
  reader, thread \<open>t + 1\<close>. \<open>read_previous_slot\<close> is lines 181-182 for all threads of the
  block. The input of the next iteration is read as \<open>load_threads\<close> reads it, from the
  memory the iteration started with; where it lies past the end of memory the kernel
  faults, in this iteration or in the next one.
\<close>

definition slots_when_read :: "(nat \<Rightarrow> bool) \<Rightarrow> int32 list \<Rightarrow> int32 list \<Rightarrow> int32 list" where
  "slots_when_read ahead sPartials next_input =
     map (\<lambda>t. if ahead t then next_input ! t else sPartials ! t) [0..<length sPartials]"

definition read_previous_slot ::
  "(nat \<Rightarrow> bool) \<Rightarrow> heap \<Rightarrow> ptr \<Rightarrow> nat \<Rightarrow> nat \<Rightarrow> nat \<Rightarrow> int32 list \<Rightarrow> fault + int32 list" where
  "read_previous_slot ahead h inp N blockDim i sPartials =
     (if i + blockDim < N then
        (case load_threads h inp (i + blockDim) blockDim of
           Inl e \<Rightarrow> Inl e
         | Inr next_input \<Rightarrow>
             Inr (exclusive_from_slots (slots_when_read ahead sPartials next_input)))
      else Inr (exclusive_from_slots sPartials))"

text \<open>
  The kernel \<^verbatim>\<open>ScanGPUBlock<scantype>\<close>, lines 168-186, as one block runs it under the
  schedule \<open>ahead\<close>. The loop starts at \<^verbatim>\<open>blockIdx.x*blockDim.x\<close> and steps by
  \<^verbatim>\<open>blockDim.x\<close>. The inclusive scan stores the value \<^verbatim>\<open>scanBlock\<close> returned to the thread,
  which no other thread can change.
\<close>

partial_function (option) ScanGPUBlock_kernel_loop ::
  "(nat \<Rightarrow> nat \<Rightarrow> bool) \<Rightarrow> ScanType \<Rightarrow> ptr \<Rightarrow> ptr \<Rightarrow> nat \<Rightarrow> nat \<Rightarrow> nat \<Rightarrow> heap \<Rightarrow>
   (fault + heap) option" where
  "ScanGPUBlock_kernel_loop ahead scantype out inp N blockDim i h =
     (if i < N then
        (case load_threads h inp i blockDim of
           Inl e \<Rightarrow> Some (Inl e)
         | Inr sPartials \<Rightarrow>
             (let (myValue, sPartials') = scanBlock sPartials
              in case (if scantype = Exclusive
                       then read_previous_slot (ahead i) h inp N blockDim i sPartials'
                       else Inr myValue) of
                   Inl e \<Rightarrow> Some (Inl e)
                 | Inr myValue' \<Rightarrow>
                     (case store_threads h out i myValue' of
                        Inl e \<Rightarrow> Some (Inl e)
                      | Inr h' \<Rightarrow>
                          ScanGPUBlock_kernel_loop ahead scantype out inp N blockDim
                            (i + blockDim) h')))
      else Some (Inr h))"

declare ScanGPUBlock_kernel_loop.simps [code]

text \<open>
  The threads of every block are scheduled on their own: \<open>ahead blockIdx\<close> is the schedule
  of the block \<open>blockIdx\<close>.
\<close>

definition ScanGPUBlock_kernel ::
  "(nat \<Rightarrow> nat \<Rightarrow> nat \<Rightarrow> bool) \<Rightarrow> ScanType \<Rightarrow> ptr \<Rightarrow> ptr \<Rightarrow> nat \<Rightarrow> nat \<Rightarrow> nat \<Rightarrow> heap \<Rightarrow>
   (fault + heap) option" where
  "ScanGPUBlock_kernel ahead scantype out inp N blockDim blockIdx h =
     ScanGPUBlock_kernel_loop (ahead blockIdx) scantype out inp N blockDim
       (blockIdx * blockDim) h"

text \<open>
  The kernel \<^verbatim>\<open>ScanGPUBlockShuffle<scantype, logBlockSize>\<close>, lines 204-221. Every thread
  keeps its value in a register and the kernel has no shared buffer of its own.
\<close>

partial_function (option) ScanGPUBlockShuffle_kernel_loop ::
  "ScanType \<Rightarrow> nat \<Rightarrow> ptr \<Rightarrow> ptr \<Rightarrow> nat \<Rightarrow> nat \<Rightarrow> nat \<Rightarrow> heap \<Rightarrow> (fault + heap) option" where
  "ScanGPUBlockShuffle_kernel_loop scantype logBlockSize out inp N blockDim i h =
     (if i < N then
        (case load_threads h inp i blockDim of
           Inl e \<Rightarrow> Some (Inl e)
         | Inr myValue \<Rightarrow>
             (let myValue' = (if scantype = Exclusive
                              then exclusive_scan_block logBlockSize myValue
                              else inclusive_scan_block logBlockSize myValue)
              in case store_threads h out i myValue' of
                   Inl e \<Rightarrow> Some (Inl e)
                 | Inr h' \<Rightarrow>
                     ScanGPUBlockShuffle_kernel_loop scantype logBlockSize out inp N blockDim
                       (i + blockDim) h'))
      else Some (Inr h))"

declare ScanGPUBlockShuffle_kernel_loop.simps [code]

definition ScanGPUBlockShuffle_kernel ::
  "ScanType \<Rightarrow> nat \<Rightarrow> ptr \<Rightarrow> ptr \<Rightarrow> nat \<Rightarrow> nat \<Rightarrow> nat \<Rightarrow> heap \<Rightarrow> (fault + heap) option" where
  "ScanGPUBlockShuffle_kernel scantype logBlockSize out inp N blockDim blockIdx h =
     ScanGPUBlockShuffle_kernel_loop scantype logBlockSize out inp N blockDim
       (blockIdx * blockDim) h"

text \<open>
  A launch \<^verbatim>\<open><<<cBlocks, cThreads, ...>>>\<close> on a device whose blocks hold at most
  \<open>maxThreads\<close> threads (\<^verbatim>\<open>prop.maxThreadsPerBlock\<close>, which \<^verbatim>\<open>main\<close> reads to bound the thread
  counts it tests). The CUDA runtime refuses a launch whose grid or block is empty or
  whose block is larger than the device allows (\<open>InvalidConfiguration\<close>), and runs no
  thread of it; a negative \<^verbatim>\<open>int\<close> becomes a dimension beyond every device's limit and is
  refused as well. The blocks of a grid that is launched are run one after the other, in
  the order of their index, each to the end of its loop; the first fault ends the grid.
  Blocks share no scratch memory and meet only in the output buffer, where the block
  \<open>blockIdx\<close> writes every segment from its own on. Where two blocks write different
  values to one position, the block of the higher index prevails here; a value one block
  can write to a position under some schedule, every block that reaches the position can
  write under the same choices, so that no outcome is lost by fixing the order.
\<close>

fun run_blocks ::
  "(nat \<Rightarrow> heap \<Rightarrow> (fault + heap) option) \<Rightarrow> nat list \<Rightarrow> heap \<Rightarrow> (fault + heap) option" where
  "run_blocks kern [] h = Some (Inr h)"
| "run_blocks kern (blockIdx # rest) h =
     (case kern blockIdx h of
        None \<Rightarrow> None
      | Some (Inl e) \<Rightarrow> Some (Inl e)
      | Some (Inr h') \<Rightarrow> run_blocks kern rest h')"

definition launch ::
  "nat \<Rightarrow> int \<Rightarrow> int \<Rightarrow> (nat \<Rightarrow> nat \<Rightarrow> heap \<Rightarrow> (fault + heap) option) \<Rightarrow> heap \<Rightarrow>
   (fault + heap) option" where
  "launch maxThreads cBlocks cThreads kern h =
     (if cBlocks \<le> 0 \<or> cThreads \<le> 0 \<or> int maxThreads < cThreads
      then Some (Inl InvalidConfiguration)
      else run_blocks (kern (nat cThreads)) [0..<nat cBlocks] h)"

text \<open>
  The block count every host wrapper of the file computes:
  \<^verbatim>\<open>int cBlocks = (int) (N/150); if ( cBlocks > 150 ) cBlocks = 150;\<close>. The cast keeps the
  low 32 bits of the quotient, read as a signed number.
\<close>

definition cBlocks_of :: "nat \<Rightarrow> int" where
  "cBlocks_of N =
     (let cBlocks = sint (word_of_nat (N div 150) :: 32 word)
      in if cBlocks > 150 then 150 else cBlocks)"

text \<open>
  The host wrapper \<^verbatim>\<open>ScanGPUBlock<scantype>\<close>, lines 188-202. Its first two arguments
  describe the device it launches on: the schedule of the threads of every block, and the
  limit on the threads of a block.
\<close>

definition ScanGPUBlock ::
  "(nat \<Rightarrow> nat \<Rightarrow> nat \<Rightarrow> bool) \<Rightarrow> nat \<Rightarrow> ScanType \<Rightarrow> ptr \<Rightarrow> ptr \<Rightarrow> nat \<Rightarrow> int \<Rightarrow> heap \<Rightarrow>
   (fault + heap) option" where
  "ScanGPUBlock ahead maxThreads scantype out inp N cThreads h =
     launch maxThreads (cBlocks_of N) cThreads (ScanGPUBlock_kernel ahead scantype out inp N) h"

text \<open>
  The host wrapper \<^verbatim>\<open>ScanGPUBlockShuffle<scantype>\<close>, lines 223-249: the thread counts
  128, 256, 512 and 1024 launch the shuffle kernel and return; every other count falls
  through to the shared-memory kernel.
\<close>

definition ScanGPUBlockShuffle ::
  "(nat \<Rightarrow> nat \<Rightarrow> nat \<Rightarrow> bool) \<Rightarrow> nat \<Rightarrow> ScanType \<Rightarrow> ptr \<Rightarrow> ptr \<Rightarrow> nat \<Rightarrow> int \<Rightarrow> heap \<Rightarrow>
   (fault + heap) option" where
  "ScanGPUBlockShuffle ahead maxThreads scantype out inp N cThreads h =
     (if cThreads = 128 then
        launch maxThreads (cBlocks_of N) cThreads
          (ScanGPUBlockShuffle_kernel scantype 7 out inp N) h
      else if cThreads = 256 then
        launch maxThreads (cBlocks_of N) cThreads
          (ScanGPUBlockShuffle_kernel scantype 8 out inp N) h
      else if cThreads = 512 then
        launch maxThreads (cBlocks_of N) cThreads
          (ScanGPUBlockShuffle_kernel scantype 9 out inp N) h
      else if cThreads = 1024 then
        launch maxThreads (cBlocks_of N) cThreads
          (ScanGPUBlockShuffle_kernel scantype 10 out inp N) h
      else launch maxThreads (cBlocks_of N) cThreads
             (ScanGPUBlock_kernel ahead scantype out inp N) h)"

section \<open>The test harness\<close>

text \<open>
  \<^verbatim>\<open>TestScanBlock\<close>, lines 404-475. What the harness takes from outside is a parameter:
  \<^item> \<open>env\<close> says which of the calls the harness checks succeed: the allocations, event
    creations and memsets of lines 418-434 (\<open>setup_ok\<close>), the copy to the device and the
    first event record (\<open>copy_in_ok\<close>), the second event record and the copy back
    (\<open>copy_out_ok\<close>), and the elapsed-time query (\<open>timing_ok\<close>). A check that fails jumps
    to \<^verbatim>\<open>Error\<close> and the harness returns false;
  \<^item> \<open>rand\<close> and the generator state \<open>r\<close>, as for \<^verbatim>\<open>RandomArray\<close>;
  \<^item> \<open>junk\<close>, the content of freshly allocated host memory.
  Host memory holds the three buffers one after the other, \<^verbatim>\<open>inCPU\<close> at 0, \<^verbatim>\<open>outCPU\<close> at
  \<open>N\<close> and \<^verbatim>\<open>hostGPU\<close> at \<open>2 * N\<close>; device memory, zeroed by \<^verbatim>\<open>cudaMemset\<close>, holds \<^verbatim>\<open>inGPU\<close> at
  0 and \<^verbatim>\<open>outGPU\<close> at \<open>N\<close>. The timing and the throughput figure are left out.
\<close>

record cuda_env =
  setup_ok :: bool
  copy_in_ok :: bool
  copy_out_ok :: bool
  timing_ok :: bool

text \<open>
  The outcome of a run: the harness returns true, returns false after a failed check, or
  finds a mismatch, prints \<^verbatim>\<open>Scan failed\<close> and reaches \<^verbatim>\<open>assert(0)\<close>.
\<close>

datatype test_result = Passed | Failed | ScanFailed

type_synonym scan_function = "ptr \<Rightarrow> ptr \<Rightarrow> nat \<Rightarrow> int \<Rightarrow> heap \<Rightarrow> (fault + heap) option"

text \<open>Lines 437-439: \<^verbatim>\<open>for ( int i = 0; i < N; i++ ) inCPU[i] = i;\<close>\<close>

function TestScanBlock_fill :: "ptr \<Rightarrow> nat \<Rightarrow> nat \<Rightarrow> heap \<Rightarrow> fault + heap" where
  "TestScanBlock_fill inCPU N i h =
     (if i < N then
        (if inCPU + i < length h
         then TestScanBlock_fill inCPU N (i + 1) (h[inCPU + i := word_of_nat i])
         else Inl OutOfBounds)
      else Inr h)"
  by pat_completeness auto
termination
  by (relation "measure (\<lambda>(inCPU, N, i, h). N - i)") auto

declare TestScanBlock_fill.simps [simp del]

text \<open>
  Lines 418-439, the host side: the three host buffers are allocated, \<^verbatim>\<open>RandomArray\<close>
  fills \<^verbatim>\<open>inCPU\<close> with random values below 256, and the loop after it stores \<open>i\<close> at
  \<^verbatim>\<open>inCPU[i]\<close>. The result is host memory and the generator state at line 440.
\<close>

definition TestScanBlock_inCPU ::
  "('r \<Rightarrow> nat \<times> 'r) \<Rightarrow> 'r \<Rightarrow> nat \<Rightarrow> (nat \<Rightarrow> int32) \<Rightarrow> fault + heap \<times> 'r" where
  "TestScanBlock_inCPU rand r N junk =
     (case RandomArray rand 0 N 256 0 (map junk [0..<3 * N], r) of
        Inl e \<Rightarrow> Inl e
      | Inr (h, r') \<Rightarrow>
          (case TestScanBlock_fill 0 N 0 h of
             Inl e \<Rightarrow> Inl e
           | Inr h' \<Rightarrow> Inr (h', r')))"

text \<open>\<^verbatim>\<open>cudaMemcpy\<close> of \<open>n\<close> elements from \<open>src\<close> in one memory to \<open>dst\<close> in another.\<close>

definition cudaMemcpy :: "heap \<Rightarrow> ptr \<Rightarrow> heap \<Rightarrow> ptr \<Rightarrow> nat \<Rightarrow> heap" where
  "cudaMemcpy dst_mem dst src_mem src n =
     map (\<lambda>a. if dst \<le> a \<and> a < dst + n then src_mem ! (src + (a - dst)) else dst_mem ! a)
       [0..<length dst_mem]"

text \<open>Lines 448-458: the comparison loop; false at the first mismatch.\<close>

function TestScanBlock_compare :: "ptr \<Rightarrow> ptr \<Rightarrow> nat \<Rightarrow> nat \<Rightarrow> heap \<Rightarrow> fault + bool" where
  "TestScanBlock_compare hostGPU outCPU N i h =
     (if i < N then
        (if hostGPU + i < length h \<and> outCPU + i < length h then
           (if h ! (hostGPU + i) = h ! (outCPU + i)
            then TestScanBlock_compare hostGPU outCPU N (i + 1) h
            else Inr False)
         else Inl OutOfBounds)
      else Inr True)"
  by pat_completeness auto
termination
  by (relation "measure (\<lambda>(hostGPU, outCPU, N, i, h). N - i)") auto

declare TestScanBlock_compare.simps [simp del]

text \<open>
  The harness. A fault of the CPU scan is a fault of the run. A GPU scan that ends with a
  fault leaves \<^verbatim>\<open>outGPU\<close> as the memset left it; whether the runtime reports the fault at
  the checks that follow is part of \<open>env\<close>.
\<close>

definition TestScanBlock ::
  "cuda_env \<Rightarrow> ('r \<Rightarrow> nat \<times> 'r) \<Rightarrow> 'r \<Rightarrow> scan_function \<Rightarrow> scan_function \<Rightarrow> nat \<Rightarrow> int \<Rightarrow>
   (nat \<Rightarrow> int32) \<Rightarrow> (fault + test_result) option" where
  "TestScanBlock env rand r pfnScanCPU pfnScanGPU N numThreads junk =
     (if setup_ok env then
        (case TestScanBlock_inCPU rand r N junk of
           Inl e \<Rightarrow> Some (Inl e)
         | Inr (host, r') \<Rightarrow>
             (case pfnScanCPU N 0 N numThreads host of
                None \<Rightarrow> None
              | Some (Inl e) \<Rightarrow> Some (Inl e)
              | Some (Inr host') \<Rightarrow>
                  (if copy_in_ok env then
                     (let dev = cudaMemcpy (replicate (2 * N) 0) 0 host' 0 N in
                      case pfnScanGPU N 0 N numThreads dev of
                        None \<Rightarrow> None
                      | Some result \<Rightarrow>
                          (if copy_out_ok env then
                             (let dev' = (case result of Inl e \<Rightarrow> dev | Inr d \<Rightarrow> d);
                                  host'' = cudaMemcpy host' (2 * N) dev' N N
                              in case TestScanBlock_compare (2 * N) N N 0 host'' of
                                   Inl e \<Rightarrow> Some (Inl e)
                                 | Inr same \<Rightarrow>
                                     (if same
                                      then (if timing_ok env then Some (Inr Passed)
                                            else Some (Inr Failed))
                                      else Some (Inr ScanFailed)))
                           else Some (Inr Failed)))
                   else Some (Inr Failed))))
      else Some (Inr Failed))"

section \<open>Reference scans\<close>

text \<open>
  The sequential running sums of a list, started from an accumulator: the inclusive one
  lists the sums through each element, the exclusive one the sums before each element.
  They are the functions the parallel scans are compared with in the lemmas below; no
  function of the program is defined through them.
\<close>

fun running_sums :: "int32 \<Rightarrow> int32 list \<Rightarrow> int32 list" where
  "running_sums acc [] = []"
| "running_sums acc (x # xs) = (acc + x) # running_sums (acc + x) xs"

fun running_sums_before :: "int32 \<Rightarrow> int32 list \<Rightarrow> int32 list" where
  "running_sums_before acc [] = []"
| "running_sums_before acc (x # xs) = acc # running_sums_before (acc + x) xs"

text \<open>
  The segmented scan with period \<open>B\<close> of the buffer at \<open>inp\<close>, read at position \<open>p\<close>: the
  sum of the inputs from the start of \<open>p\<close>'s period, \<open>(p div B) * B\<close>, up to \<open>p\<close>, with \<open>p\<close>
  itself for the inclusive scan and without it for the exclusive one.
\<close>

definition segment_value :: "ScanType \<Rightarrow> nat \<Rightarrow> ptr \<Rightarrow> heap \<Rightarrow> nat \<Rightarrow> int32" where
  "segment_value scantype B inp h p =
     (if scantype = Exclusive
      then (\<Sum>k = (p div B) * B..<p. h ! (inp + k))
      else (\<Sum>k = (p div B) * B..<Suc p. h ! (inp + k)))"

text \<open>
  The memory \<open>h\<close> after the output positions \<open>start, ..., N - 1\<close> have received the
  segmented scan of the input buffer; every other address is as in \<open>h\<close>.
\<close>

definition segmented_scan_heap ::
  "ScanType \<Rightarrow> nat \<Rightarrow> ptr \<Rightarrow> ptr \<Rightarrow> nat \<Rightarrow> nat \<Rightarrow> heap \<Rightarrow> heap" where
  "segmented_scan_heap scantype B out inp N start h =
     map (\<lambda>a. if out + start \<le> a \<and> a < out + N
              then segment_value scantype B inp h (a - out) else h ! a) [0..<length h]"

section \<open>The CPU reference scans: loop lemmas\<close>

lemma sum_shift_start:
  fixes f :: "nat \<Rightarrow> 'a::comm_monoid_add"
  assumes "i \<le> p"
  shows "(\<Sum>k = 0..<p - i. f (i + k)) = (\<Sum>k = i..<p. f k)"
proof -
  have "(\<Sum>k = 0..<p - i. f (i + k)) = (\<Sum>k = 0..<p - i. f (k + i))"
    by (simp add: add.commute)
  also have "\<dots> = (\<Sum>k = 0 + i..<(p - i) + i. f k)"
    by (rule sum.shift_bounds_nat_ivl [symmetric])
  finally show ?thesis using assms by simp
qed

lemma Exclusive_inner_returns:
  "inp + i + period \<le> length h \<Longrightarrow> out + i + period \<le> length h \<Longrightarrow>
   \<exists>h'. ScanExclusiveCPUPeriodic_inner period out inp i j s h = Inr h'"
proof (induction period out inp i j s h rule: ScanExclusiveCPUPeriodic_inner.induct)
  case (1 period out inp i j s h)
  show ?case
  proof (cases "j < period")
    case True
    with 1 show ?thesis by (simp add: Let_def)
  next
    case False
    then show ?thesis by simp
  qed
qed

lemma Exclusive_inner_length:
  "ScanExclusiveCPUPeriodic_inner period out inp i j s h = Inr h' \<Longrightarrow> length h' = length h"
proof (induction period out inp i j s h rule: ScanExclusiveCPUPeriodic_inner.induct)
  case (1 period out inp i j s h)
  then show ?case
    by (cases "j < period") (auto simp: Let_def split: if_splits)
qed

lemma Exclusive_inner_frame:
  "ScanExclusiveCPUPeriodic_inner period out inp i j s h = Inr h' \<Longrightarrow>
   a < out + i + j \<or> out + i + period \<le> a \<Longrightarrow> h' ! a = h ! a"
proof (induction period out inp i j s h rule: ScanExclusiveCPUPeriodic_inner.induct)
  case (1 period out inp i j s h)
  show ?case
  proof (cases "j < period")
    case True
    with "1.prems" have b: "inp + i + j < length h" "out + i + j < length h"
      by (auto split: if_splits)
    with True "1.prems" have r: "ScanExclusiveCPUPeriodic_inner period out inp i (j + 1)
        (s + h ! (inp + i + j)) (h[out + i + j := s]) = Inr h'"
      by (simp add: Let_def)
    have "h' ! a = (h[out + i + j := s]) ! a"
      using "1.IH" [OF True _ refl refl r] b "1.prems"(2) by auto
    also have "\<dots> = h ! a"
      using "1.prems"(2) True by auto
    finally show ?thesis .
  next
    case False
    with "1.prems" show ?thesis by simp
  qed
qed

lemma Exclusive_inner_first:
  assumes "ScanExclusiveCPUPeriodic_inner period out inp i j s h = Inr h'" and "j < period"
  shows "h' ! (out + i + j) = s"
proof -
  from assms have b: "inp + i + j < length h" "out + i + j < length h"
    by (auto split: if_splits)
  with assms have r: "ScanExclusiveCPUPeriodic_inner period out inp i (j + 1)
      (s + h ! (inp + i + j)) (h[out + i + j := s]) = Inr h'"
    by (simp add: Let_def)
  have "h' ! (out + i + j) = (h[out + i + j := s]) ! (out + i + j)"
    by (rule Exclusive_inner_frame [OF r]) simp
  with b show ?thesis by simp
qed

lemma Exclusive_inner_value:
  "ScanExclusiveCPUPeriodic_inner period out inp i j s h = Inr h' \<Longrightarrow>
   out \<le> inp \<or> inp + period \<le> out + j \<Longrightarrow> j \<le> m \<Longrightarrow> m < period \<Longrightarrow>
   h' ! (out + i + m) = s + (\<Sum>k = j..<m. h ! (inp + i + k))"
proof (induction period out inp i j s h rule: ScanExclusiveCPUPeriodic_inner.induct)
  case (1 period out inp i j s h)
  from "1.prems" have jp: "j < period" by simp
  with "1.prems" have b: "inp + i + j < length h" "out + i + j < length h"
    by (auto split: if_splits)
  with jp "1.prems" have r: "ScanExclusiveCPUPeriodic_inner period out inp i (j + 1)
      (s + h ! (inp + i + j)) (h[out + i + j := s]) = Inr h'"
    by (simp add: Let_def)
  show ?case
  proof (cases "m = j")
    case True
    with Exclusive_inner_first [OF "1.prems"(1) jp] show ?thesis by simp
  next
    case False
    with "1.prems" have jm: "j + 1 \<le> m" by simp
    have nc: "out \<le> inp \<or> inp + period \<le> out + (j + 1)"
      using "1.prems"(2) by auto
    have keep: "(h[out + i + j := s]) ! (inp + i + k) = h ! (inp + i + k)"
      if "k \<in> {j + 1..<m}" for k
      using that "1.prems"(2,4) by auto
    have "h' ! (out + i + m) =
        (s + h ! (inp + i + j)) + (\<Sum>k = j + 1..<m. (h[out + i + j := s]) ! (inp + i + k))"
      using "1.IH" [OF jp _ refl refl r nc jm "1.prems"(4)] b by simp
    also have "(\<Sum>k = j + 1..<m. (h[out + i + j := s]) ! (inp + i + k)) =
        (\<Sum>k = j + 1..<m. h ! (inp + i + k))"
      by (rule sum.cong [OF refl]) (rule keep)
    also have "(s + h ! (inp + i + j)) + (\<Sum>k = j + 1..<m. h ! (inp + i + k)) =
        s + (\<Sum>k = j..<m. h ! (inp + i + k))"
      using jm by (simp add: sum.atLeast_Suc_lessThan add.assoc)
    finally show ?thesis .
  qed
qed


lemma Exclusive_outer_props:
  "0 < period \<Longrightarrow> N \<le> i + n * period \<Longrightarrow>
   inp + i + n * period \<le> length h \<Longrightarrow> out + i + n * period \<le> length h \<Longrightarrow>
   \<exists>h'. ScanExclusiveCPUPeriodic_outer period out inp N i h = Some (Inr h') \<and>
        length h' = length h \<and>
        (\<forall>a. a < out + i \<or> out + i + n * period \<le> a \<longrightarrow> h' ! a = h ! a) \<and>
        (\<forall>k. i + k * period < N \<longrightarrow> h' ! (out + i + k * period) = 0)"
proof (induction n arbitrary: i h)
  case 0
  then show ?case
    by (subst ScanExclusiveCPUPeriodic_outer.simps) simp
next
  case (Suc n)
  show ?case
  proof (cases "i < N")
    case False
    then show ?thesis
      by (subst ScanExclusiveCPUPeriodic_outer.simps) simp
  next
    case True
    from Suc.prems have b: "inp + i + period \<le> length h" "out + i + period \<le> length h"
      by simp_all
    from Exclusive_inner_returns [OF b] obtain h1 where
      h1: "ScanExclusiveCPUPeriodic_inner period out inp i 0 0 h = Inr h1" by blast
    have len1: "length h1 = length h" by (rule Exclusive_inner_length [OF h1])
    have fr1: "h1 ! a = h ! a" if "a < out + i \<or> out + i + period \<le> a" for a
      using Exclusive_inner_frame [OF h1, of a] that by simp
    have z1: "h1 ! (out + i) = 0"
      using Exclusive_inner_first [OF h1 \<open>0 < period\<close>] by simp
    from Suc.prems len1 have pre:
      "N \<le> (i + period) + n * period"
      "inp + (i + period) + n * period \<le> length h1"
      "out + (i + period) + n * period \<le> length h1"
      by simp_all
    from Suc.IH [OF \<open>0 < period\<close> pre] obtain h' where
      r: "ScanExclusiveCPUPeriodic_outer period out inp N (i + period) h1 = Some (Inr h')"
      and len: "length h' = length h1"
      and fr: "\<And>a. a < out + (i + period) \<or> out + (i + period) + n * period \<le> a \<Longrightarrow> h' ! a = h1 ! a"
      and z: "\<And>k. (i + period) + k * period < N \<Longrightarrow> h' ! (out + (i + period) + k * period) = 0"
      by blast
    have run: "ScanExclusiveCPUPeriodic_outer period out inp N i h = Some (Inr h')"
      using True h1 r by (subst ScanExclusiveCPUPeriodic_outer.simps) simp
    have frame: "h' ! a = h ! a" if "a < out + i \<or> out + i + Suc n * period \<le> a" for a
    proof -
      have "h' ! a = h1 ! a" using that by (intro fr) auto
      also have "\<dots> = h ! a" using that by (intro fr1) auto
      finally show ?thesis .
    qed
    have zero: "h' ! (out + i + k * period) = 0" if "i + k * period < N" for k
    proof (cases k)
      case 0
      have "h' ! (out + i) = h1 ! (out + i)" using \<open>0 < period\<close> by (intro fr) simp
      with z1 0 show ?thesis by simp
    next
      case (Suc k')
      with that z [of k'] show ?thesis by (simp add: add.assoc add.left_commute)
    qed
    from run len len1 frame zero show ?thesis by auto
  qed
qed

lemma Exclusive_outer_value:
  "0 < period \<Longrightarrow> N = i + n * period \<Longrightarrow>
   out \<le> inp \<or> inp + N \<le> out \<Longrightarrow>
   ScanExclusiveCPUPeriodic_outer period out inp N i h = Some (Inr h') \<Longrightarrow>
   inp + N \<le> length h \<Longrightarrow> out + N \<le> length h \<Longrightarrow>
   i \<le> p \<Longrightarrow> p < N \<Longrightarrow>
   h' ! (out + p) = (\<Sum>k = i + ((p - i) div period) * period..<p. h ! (inp + k))"
proof (induction n arbitrary: i h)
  case 0
  then show ?case by simp
next
  case (Suc n)
  from Suc.prems have iN: "i < N" by simp
  from Suc.prems have b: "inp + i + period \<le> length h" "out + i + period \<le> length h"
    by simp_all
  from Exclusive_inner_returns [OF b] obtain h1 where
    h1: "ScanExclusiveCPUPeriodic_inner period out inp i 0 0 h = Inr h1" by blast
  have len1: "length h1 = length h" by (rule Exclusive_inner_length [OF h1])
  have r: "ScanExclusiveCPUPeriodic_outer period out inp N (i + period) h1 = Some (Inr h')"
    using Suc.prems(4) iN h1 by (subst (asm) ScanExclusiveCPUPeriodic_outer.simps) simp
  show ?case
  proof (cases "p < i + period")
    case True
    from Suc.prems len1 have pre:
      "N \<le> (i + period) + n * period"
      "inp + (i + period) + n * period \<le> length h1"
      "out + (i + period) + n * period \<le> length h1"
      by simp_all
    from Exclusive_outer_props [OF \<open>0 < period\<close> pre] r
    have "h' ! (out + p) = h1 ! (out + p)" using True by auto
    also have "\<dots> = h1 ! (out + i + (p - i))" using \<open>i \<le> p\<close> by simp
    also have "\<dots> = 0 + (\<Sum>k = 0..<p - i. h ! (inp + i + k))"
      using True \<open>i \<le> p\<close> Suc.prems(2,3) by (intro Exclusive_inner_value [OF h1]) auto
    also have "\<dots> = (\<Sum>k = i..<p. h ! (inp + k))"
      using sum_shift_start [OF \<open>i \<le> p\<close>, of "\<lambda>k. h ! (inp + k)"]
      by (simp add: add.assoc)
    finally show ?thesis using True \<open>i \<le> p\<close> by simp
  next
    case False
    then have ip: "i + period \<le> p" by simp
    have keep: "h1 ! (inp + k) = h ! (inp + k)" if "i + period \<le> k" "k < N" for k
      using Exclusive_inner_frame [OF h1, of "inp + k"] that Suc.prems(3) by auto
    have "h' ! (out + p) =
        (\<Sum>k = (i + period) + ((p - (i + period)) div period) * period..<p. h1 ! (inp + k))"
      using Suc.prems len1 ip
      by (intro Suc.IH [OF \<open>0 < period\<close> _ _ r]) simp_all
    also have "\<dots> = (\<Sum>k = (i + period) + ((p - (i + period)) div period) * period..<p. h ! (inp + k))"
      using \<open>p < N\<close> by (intro sum.cong [OF refl] keep) auto
    also have "(i + period) + ((p - (i + period)) div period) * period =
        i + ((p - i) div period) * period"
    proof -
      have "(p - i) div period = Suc ((p - i - period) div period)"
        using ip \<open>0 < period\<close> by (simp add: le_div_geq)
      then show ?thesis by (simp add: diff_diff_left)
    qed
    finally show ?thesis .
  qed
qed

lemma Inclusive_inner_returns:
  "inp + i + period \<le> length h \<Longrightarrow> out + i + period \<le> length h \<Longrightarrow>
   \<exists>h'. ScanInclusiveCPUPeriodic_inner period out inp i j s h = Inr h'"
proof (induction period out inp i j s h rule: ScanInclusiveCPUPeriodic_inner.induct)
  case (1 period out inp i j s h)
  show ?case
  proof (cases "j < period")
    case True
    with 1 show ?thesis by (simp add: Let_def)
  next
    case False
    then show ?thesis by simp
  qed
qed

lemma Inclusive_inner_length:
  "ScanInclusiveCPUPeriodic_inner period out inp i j s h = Inr h' \<Longrightarrow> length h' = length h"
proof (induction period out inp i j s h rule: ScanInclusiveCPUPeriodic_inner.induct)
  case (1 period out inp i j s h)
  then show ?case
    by (cases "j < period") (auto simp: Let_def split: if_splits)
qed

lemma Inclusive_inner_frame:
  "ScanInclusiveCPUPeriodic_inner period out inp i j s h = Inr h' \<Longrightarrow>
   a < out + i + j \<or> out + i + period \<le> a \<Longrightarrow> h' ! a = h ! a"
proof (induction period out inp i j s h rule: ScanInclusiveCPUPeriodic_inner.induct)
  case (1 period out inp i j s h)
  show ?case
  proof (cases "j < period")
    case True
    with "1.prems" have b: "inp + i + j < length h" "out + i + j < length h"
      by (auto split: if_splits)
    with True "1.prems" have r: "ScanInclusiveCPUPeriodic_inner period out inp i (j + 1)
        (s + h ! (inp + i + j)) (h[out + i + j := s + h ! (inp + i + j)]) = Inr h'"
      by (simp add: Let_def)
    have "h' ! a = (h[out + i + j := s + h ! (inp + i + j)]) ! a"
      using "1.IH" [OF True _ refl refl r] b "1.prems"(2) by auto
    also have "\<dots> = h ! a"
      using "1.prems"(2) True by auto
    finally show ?thesis .
  next
    case False
    with "1.prems" show ?thesis by simp
  qed
qed

lemma Inclusive_inner_first:
  assumes "ScanInclusiveCPUPeriodic_inner period out inp i j s h = Inr h'" and "j < period"
  shows "h' ! (out + i + j) = s + h ! (inp + i + j)"
proof -
  from assms have b: "inp + i + j < length h" "out + i + j < length h"
    by (auto split: if_splits)
  with assms have r: "ScanInclusiveCPUPeriodic_inner period out inp i (j + 1)
      (s + h ! (inp + i + j)) (h[out + i + j := s + h ! (inp + i + j)]) = Inr h'"
    by (simp add: Let_def)
  have "h' ! (out + i + j) = (h[out + i + j := s + h ! (inp + i + j)]) ! (out + i + j)"
    by (rule Inclusive_inner_frame [OF r]) simp
  with b show ?thesis by simp
qed

lemma Inclusive_inner_value:
  "ScanInclusiveCPUPeriodic_inner period out inp i j s h = Inr h' \<Longrightarrow>
   out \<le> inp \<or> inp + period \<le> out + j \<Longrightarrow> j \<le> m \<Longrightarrow> m < period \<Longrightarrow>
   h' ! (out + i + m) = s + (\<Sum>k = j..<Suc m. h ! (inp + i + k))"
proof (induction period out inp i j s h rule: ScanInclusiveCPUPeriodic_inner.induct)
  case (1 period out inp i j s h)
  from "1.prems" have jp: "j < period" by simp
  with "1.prems" have b: "inp + i + j < length h" "out + i + j < length h"
    by (auto split: if_splits)
  with jp "1.prems" have r: "ScanInclusiveCPUPeriodic_inner period out inp i (j + 1)
      (s + h ! (inp + i + j)) (h[out + i + j := s + h ! (inp + i + j)]) = Inr h'"
    by (simp add: Let_def)
  show ?case
  proof (cases "m = j")
    case True
    with Inclusive_inner_first [OF "1.prems"(1) jp] show ?thesis by simp
  next
    case False
    with "1.prems" have jm: "j + 1 \<le> m" by simp
    have nc: "out \<le> inp \<or> inp + period \<le> out + (j + 1)"
      using "1.prems"(2) by auto
    have keep: "(h[out + i + j := s + h ! (inp + i + j)]) ! (inp + i + k) = h ! (inp + i + k)"
      if "k \<in> {j + 1..<Suc m}" for k
      using that "1.prems"(2,4) by auto
    have "j < Suc m" using jm by simp
    from sum.atLeast_Suc_lessThan [OF this, of "\<lambda>k. h ! (inp + i + k)"]
    have split: "(\<Sum>k = j..<Suc m. h ! (inp + i + k)) =
        h ! (inp + i + j) + (\<Sum>k = Suc j..<Suc m. h ! (inp + i + k))" .
    have "h' ! (out + i + m) = (s + h ! (inp + i + j)) +
        (\<Sum>k = Suc j..<Suc m. (h[out + i + j := s + h ! (inp + i + j)]) ! (inp + i + k))"
      using "1.IH" [OF jp _ refl refl r nc jm "1.prems"(4)] b by simp
    also have "(\<Sum>k = Suc j..<Suc m. (h[out + i + j := s + h ! (inp + i + j)]) ! (inp + i + k)) =
        (\<Sum>k = Suc j..<Suc m. h ! (inp + i + k))"
      by (rule sum.cong [OF refl]) (rule keep, simp)
    also have "(s + h ! (inp + i + j)) + (\<Sum>k = Suc j..<Suc m. h ! (inp + i + k)) =
        s + (\<Sum>k = j..<Suc m. h ! (inp + i + k))"
      by (subst split) (rule add.assoc)
    finally show ?thesis .
  qed
qed

lemma Inclusive_outer_props:
  "0 < period \<Longrightarrow> N \<le> i + n * period \<Longrightarrow>
   inp + i + n * period \<le> length h \<Longrightarrow> out + i + n * period \<le> length h \<Longrightarrow>
   \<exists>h'. ScanInclusiveCPUPeriodic_outer period out inp N i h = Some (Inr h') \<and>
        length h' = length h \<and>
        (\<forall>a. a < out + i \<or> out + i + n * period \<le> a \<longrightarrow> h' ! a = h ! a)"
proof (induction n arbitrary: i h)
  case 0
  then show ?case
    by (subst ScanInclusiveCPUPeriodic_outer.simps) simp
next
  case (Suc n)
  show ?case
  proof (cases "i < N")
    case False
    then show ?thesis
      by (subst ScanInclusiveCPUPeriodic_outer.simps) simp
  next
    case True
    from Suc.prems have b: "inp + i + period \<le> length h" "out + i + period \<le> length h"
      by simp_all
    from Inclusive_inner_returns [OF b] obtain h1 where
      h1: "ScanInclusiveCPUPeriodic_inner period out inp i 0 0 h = Inr h1" by blast
    have len1: "length h1 = length h" by (rule Inclusive_inner_length [OF h1])
    have fr1: "h1 ! a = h ! a" if "a < out + i \<or> out + i + period \<le> a" for a
      using Inclusive_inner_frame [OF h1, of a] that by simp
    from Suc.prems len1 have pre:
      "N \<le> (i + period) + n * period"
      "inp + (i + period) + n * period \<le> length h1"
      "out + (i + period) + n * period \<le> length h1"
      by simp_all
    from Suc.IH [OF \<open>0 < period\<close> pre] obtain h' where
      r: "ScanInclusiveCPUPeriodic_outer period out inp N (i + period) h1 = Some (Inr h')"
      and len: "length h' = length h1"
      and fr: "\<And>a. a < out + (i + period) \<or> out + (i + period) + n * period \<le> a \<Longrightarrow> h' ! a = h1 ! a"
      by blast
    have run: "ScanInclusiveCPUPeriodic_outer period out inp N i h = Some (Inr h')"
      using True h1 r by (subst ScanInclusiveCPUPeriodic_outer.simps) simp
    have frame: "h' ! a = h ! a" if "a < out + i \<or> out + i + Suc n * period \<le> a" for a
    proof -
      have "h' ! a = h1 ! a" using that by (intro fr) auto
      also have "\<dots> = h ! a" using that by (intro fr1) auto
      finally show ?thesis .
    qed
    from run len len1 frame show ?thesis by auto
  qed
qed

lemma Inclusive_outer_value:
  "0 < period \<Longrightarrow> N = i + n * period \<Longrightarrow>
   out \<le> inp \<or> inp + N \<le> out \<Longrightarrow>
   ScanInclusiveCPUPeriodic_outer period out inp N i h = Some (Inr h') \<Longrightarrow>
   inp + N \<le> length h \<Longrightarrow> out + N \<le> length h \<Longrightarrow>
   i \<le> p \<Longrightarrow> p < N \<Longrightarrow>
   h' ! (out + p) = (\<Sum>k = i + ((p - i) div period) * period..<Suc p. h ! (inp + k))"
proof (induction n arbitrary: i h)
  case 0
  then show ?case by simp
next
  case (Suc n)
  from Suc.prems have iN: "i < N" by simp
  from Suc.prems have b: "inp + i + period \<le> length h" "out + i + period \<le> length h"
    by simp_all
  from Inclusive_inner_returns [OF b] obtain h1 where
    h1: "ScanInclusiveCPUPeriodic_inner period out inp i 0 0 h = Inr h1" by blast
  have len1: "length h1 = length h" by (rule Inclusive_inner_length [OF h1])
  have r: "ScanInclusiveCPUPeriodic_outer period out inp N (i + period) h1 = Some (Inr h')"
    using Suc.prems(4) iN h1 by (subst (asm) ScanInclusiveCPUPeriodic_outer.simps) simp
  show ?case
  proof (cases "p < i + period")
    case True
    from Suc.prems len1 have pre:
      "N \<le> (i + period) + n * period"
      "inp + (i + period) + n * period \<le> length h1"
      "out + (i + period) + n * period \<le> length h1"
      by simp_all
    from Inclusive_outer_props [OF \<open>0 < period\<close> pre] r
    have "h' ! (out + p) = h1 ! (out + p)" using True by auto
    also have "\<dots> = h1 ! (out + i + (p - i))" using \<open>i \<le> p\<close> by simp
    also have "\<dots> = 0 + (\<Sum>k = 0..<Suc (p - i). h ! (inp + i + k))"
      using True \<open>i \<le> p\<close> Suc.prems(2,3) by (intro Inclusive_inner_value [OF h1]) auto
    also have "\<dots> = (\<Sum>k = 0..<Suc p - i. h ! (inp + (i + k)))"
      using \<open>i \<le> p\<close> by (simp add: Suc_diff_le add.assoc)
    also have "\<dots> = (\<Sum>k = i..<Suc p. h ! (inp + k))"
      using \<open>i \<le> p\<close> by (intro sum_shift_start [of i "Suc p" "\<lambda>k. h ! (inp + k)"]) simp
    finally show ?thesis using True \<open>i \<le> p\<close> by simp
  next
    case False
    then have ip: "i + period \<le> p" by simp
    have keep: "h1 ! (inp + k) = h ! (inp + k)" if "i + period \<le> k" "k < N" for k
      using Inclusive_inner_frame [OF h1, of "inp + k"] that Suc.prems(3) by auto
    have "h' ! (out + p) =
        (\<Sum>k = (i + period) + ((p - (i + period)) div period) * period..<Suc p. h1 ! (inp + k))"
      using Suc.prems len1 ip
      by (intro Suc.IH [OF \<open>0 < period\<close> _ _ r]) simp_all
    also have "\<dots> =
        (\<Sum>k = (i + period) + ((p - (i + period)) div period) * period..<Suc p. h ! (inp + k))"
      using \<open>p < N\<close> by (intro sum.cong [OF refl] keep) auto
    also have "(i + period) + ((p - (i + period)) div period) * period =
        i + ((p - i) div period) * period"
    proof -
      have "(p - i) div period = Suc ((p - i - period) div period)"
        using ip \<open>0 < period\<close> by (simp add: le_div_geq)
      then show ?thesis by (simp add: diff_diff_left)
    qed
    finally show ?thesis .
  qed
qed

lemma ScanCPUBlock_supported:
  assumes "B = 256 \<or> B = 512 \<or> B = 1024"
  shows "ScanCPUBlock scantype out inp N (int B) h =
     (case scantype of
        Exclusive \<Rightarrow> ScanExclusiveCPUPeriodic B out inp N h
      | Inclusive \<Rightarrow> ScanInclusiveCPUPeriodic B out inp N h)"
  using assms by (auto simp: ScanCPUBlock_def)

section \<open>Warp and block scans compute the running sums\<close>

lemma length_running_sums [simp]: "length (running_sums acc xs) = length xs"
  by (induction xs arbitrary: acc) simp_all

lemma length_running_sums_before [simp]: "length (running_sums_before acc xs) = length xs"
  by (induction xs arbitrary: acc) simp_all

lemma running_sums_nth:
  "i < length xs \<Longrightarrow> running_sums acc xs ! i = acc + (\<Sum>k = 0..<Suc i. xs ! k)"
proof (induction xs arbitrary: acc i)
  case Nil
  then show ?case by simp
next
  case (Cons x xs)
  show ?case
  proof (cases i)
    case 0
    then show ?thesis by simp
  next
    case (Suc i')
    with Cons.prems have i': "i' < length xs" by simp
    have "(\<Sum>k = 0..<Suc (Suc i'). (x # xs) ! k) = x + (\<Sum>k = 0..<Suc i'. xs ! k)"
      by (subst sum.atLeast0_lessThan_Suc_shift) simp
    with Cons.IH [OF i', of "acc + x"] Suc show ?thesis
      by (simp add: add.assoc)
  qed
qed

lemma running_sums_before_nth:
  "i < length xs \<Longrightarrow> running_sums_before acc xs ! i = acc + (\<Sum>k = 0..<i. xs ! k)"
proof (induction xs arbitrary: acc i)
  case Nil
  then show ?case by simp
next
  case (Cons x xs)
  show ?case
  proof (cases i)
    case 0
    then show ?thesis by simp
  next
    case (Suc i')
    with Cons.prems have i': "i' < length xs" by simp
    have "(\<Sum>k = 0..<Suc i'. (x # xs) ! k) = x + (\<Sum>k = 0..<i'. xs ! k)"
      by (subst sum.atLeast0_lessThan_Suc_shift) simp
    with Cons.IH [OF i', of "acc + x"] Suc show ?thesis
      by (simp add: add.assoc)
  qed
qed

lemma running_sums_shift: "running_sums acc xs = map (\<lambda>v. acc + v) (running_sums 0 xs)"
  by (rule nth_equalityI) (simp_all add: running_sums_nth)

lemma running_sums_before_shift:
  "running_sums_before acc xs = map (\<lambda>v. acc + v) (running_sums_before 0 xs)"
  by (rule nth_equalityI) (simp_all add: running_sums_before_nth)

lemma running_sums_append:
  "running_sums acc (xs @ ys) = running_sums acc xs @ running_sums (acc + sum_list xs) ys"
  by (induction xs arbitrary: acc) (simp_all add: add.assoc)

lemma running_sums_before_append:
  "running_sums_before acc (xs @ ys) =
     running_sums_before acc xs @ running_sums_before (acc + sum_list xs) ys"
  by (induction xs arbitrary: acc) (simp_all add: add.assoc)

lemma running_sums_eq_Nil [simp]: "running_sums acc xs = [] \<longleftrightarrow> xs = []"
  by (cases xs) simp_all

lemma last_running_sums:
  "xs \<noteq> [] \<Longrightarrow> last (running_sums acc xs) = acc + sum_list xs"
  by (induction xs arbitrary: acc) (auto simp: add.assoc)

lemma running_sums_minus_own:
  "map2 (\<lambda>inclusive own. inclusive - own) (running_sums acc xs) xs = running_sums_before acc xs"
  by (induction xs arbitrary: acc) simp_all

text \<open>The log-step reduction: after the steps \<open>0, ..., k - 1\<close> lane \<open>i\<close> holds the sum of
  the \<open>2 ^ k\<close> values ending at its own, or of all values up to its own when there are fewer.\<close>

lemma length_scanWarp_step [simp]: "length (scanWarp_step k xs) = length xs"
  by (simp add: scanWarp_step_def)

lemma scanWarp_steps_window:
  "length (fold scanWarp_step [0..<n] xs) = length xs \<and>
   (\<forall>i<length xs. fold scanWarp_step [0..<n] xs ! i = (\<Sum>j = Suc i - 2 ^ n..<Suc i. xs ! j))"
proof (induction n)
  case 0
  show ?case by simp
next
  case (Suc n)
  let ?ys = "fold scanWarp_step [0..<n] xs"
  from Suc have len: "length ?ys = length xs"
    and win: "\<And>i. i < length xs \<Longrightarrow> ?ys ! i = (\<Sum>j = Suc i - 2 ^ n..<Suc i. xs ! j)"
    by simp_all
  have step: "fold scanWarp_step [0..<Suc n] xs = scanWarp_step n ?ys" by simp
  have "scanWarp_step n ?ys ! i = (\<Sum>j = Suc i - 2 ^ Suc n..<Suc i. xs ! j)"
    if i: "i < length xs" for i
  proof (cases "2 ^ n \<le> i")
    case True
    then have lt: "i - 2 ^ n < length xs" using i by simp
    have "scanWarp_step n ?ys ! i = ?ys ! i + ?ys ! (i - 2 ^ n)"
      using True i len by (simp add: scanWarp_step_def)
    also have "\<dots> = (\<Sum>j = Suc i - 2 ^ n..<Suc i. xs ! j) +
        (\<Sum>j = Suc (i - 2 ^ n) - 2 ^ n..<Suc (i - 2 ^ n). xs ! j)"
      by (simp only: win [OF i] win [OF lt])
    also have "Suc (i - 2 ^ n) - 2 ^ n = Suc i - 2 ^ Suc n" using True by simp
    also have "Suc (i - 2 ^ n) = Suc i - 2 ^ n" using True by simp
    also have "(\<Sum>j = Suc i - 2 ^ n..<Suc i. xs ! j) +
        (\<Sum>j = Suc i - 2 ^ Suc n..<Suc i - 2 ^ n. xs ! j) =
        (\<Sum>j = Suc i - 2 ^ Suc n..<Suc i. xs ! j)"
      by (subst add.commute) (rule sum.atLeastLessThan_concat, simp_all)
    finally show ?thesis .
  next
    case False
    then have "scanWarp_step n ?ys ! i = ?ys ! i"
      using i len by (simp add: scanWarp_step_def)
    also have "\<dots> = (\<Sum>j = Suc i - 2 ^ n..<Suc i. xs ! j)" by (rule win [OF i])
    also have "Suc i - 2 ^ n = Suc i - 2 ^ Suc n" using False by simp
    finally show ?thesis .
  qed
  with len show ?case by (simp only: step length_scanWarp_step) simp
qed

lemma scanWarp_running_sums:
  assumes "length xs \<le> 32"
  shows "scanWarp xs = running_sums 0 xs"
proof (rule nth_equalityI)
  show "length (scanWarp xs) = length (running_sums 0 xs)"
    using scanWarp_steps_window [of 5 xs] by (simp add: scanWarp_def)
next
  fix i assume "i < length (scanWarp xs)"
  then have i: "i < length xs"
    using scanWarp_steps_window [of 5 xs] by (simp add: scanWarp_def)
  with assms have "Suc i - 2 ^ 5 = 0" by simp
  with scanWarp_steps_window [of 5 xs] i
  have "scanWarp xs ! i = (\<Sum>j = 0..<Suc i. xs ! j)"
    by (simp add: scanWarp_def)
  with i show "scanWarp xs ! i = running_sums 0 xs ! i"
    by (simp add: running_sums_nth)
qed

lemma scanWarpExclusive_running_sums_before:
  "length xs \<le> 32 \<Longrightarrow> scanWarpExclusive xs = running_sums_before 0 xs"
  by (simp add: scanWarpExclusive_def scanWarp_running_sums running_sums_minus_own)

text \<open>The warps of a block: non-empty, at most 32 lanes each, and in lane order.\<close>

lemma concat_warps: "concat (warps xs) = xs"
  by (induction xs rule: warps.induct) (subst warps.simps, simp)

lemma warps_nonempty: "w \<in> set (warps xs) \<Longrightarrow> w \<noteq> [] \<and> length w \<le> 32"
proof (induction xs rule: warps.induct)
  case (1 xs)
  show ?case
  proof (cases "xs = []")
    case True
    with "1.prems" show ?thesis by (subst (asm) warps.simps) simp
  next
    case False
    with "1.prems" have "w = take 32 xs \<or> w \<in> set (warps (drop 32 xs))"
      by (subst (asm) warps.simps) simp
    with False "1.IH" show ?thesis by auto
  qed
qed

lemma length_warps: "length xs \<le> 32 * n \<Longrightarrow> length (warps xs) \<le> n"
proof (induction xs arbitrary: n rule: warps.induct)
  case (1 xs)
  show ?case
  proof (cases "xs = []")
    case True
    then show ?thesis by (subst warps.simps) simp
  next
    case False
    with "1.prems" obtain n' where n: "n = Suc n'" by (cases n) auto
    with "1.prems" have "length (drop 32 xs) \<le> 32 * n'" by simp
    from "1.IH" [OF False this] n False show ?thesis
      by (subst warps.simps) simp
  qed
qed

text \<open>The two-level scan: carry-in plus local sums is the running sum of the block.\<close>

lemma add_carry_running_sums:
  "add_carry (running_sums_before acc (map sum_list ws)) (map (running_sums 0) ws) =
     running_sums acc (concat ws)"
proof (induction ws arbitrary: acc)
  case Nil
  show ?case by (simp add: add_carry_def)
next
  case (Cons w ws)
  have "add_carry (running_sums_before acc (map sum_list (w # ws))) (map (running_sums 0) (w # ws)) =
      map (\<lambda>v. acc + v) (running_sums 0 w) @
      add_carry (running_sums_before (acc + sum_list w) (map sum_list ws)) (map (running_sums 0) ws)"
    by (simp add: add_carry_def)
  also have "\<dots> = running_sums acc w @ running_sums (acc + sum_list w) (concat ws)"
    by (simp only: Cons.IH running_sums_shift [symmetric])
  finally show ?case by (simp add: running_sums_append)
qed

lemma add_carry_running_sums_before:
  "add_carry (running_sums_before acc (map sum_list ws)) (map (running_sums_before 0) ws) =
     running_sums_before acc (concat ws)"
proof (induction ws arbitrary: acc)
  case Nil
  show ?case by (simp add: add_carry_def)
next
  case (Cons w ws)
  have "add_carry (running_sums_before acc (map sum_list (w # ws)))
        (map (running_sums_before 0) (w # ws)) =
      map (\<lambda>v. acc + v) (running_sums_before 0 w) @
      add_carry (running_sums_before (acc + sum_list w) (map sum_list ws))
        (map (running_sums_before 0) ws)"
    by (simp add: add_carry_def)
  also have "\<dots> = running_sums_before acc w @ running_sums_before (acc + sum_list w) (concat ws)"
    by (simp only: Cons.IH running_sums_before_shift [symmetric])
  finally show ?case by (simp add: running_sums_before_append)
qed

lemma local_sums_warps:
  "map scanWarp (warps xs) = map (running_sums 0) (warps xs)"
proof (rule map_cong [OF refl])
  fix w assume "w \<in> set (warps xs)"
  then have "length w \<le> 32" using warps_nonempty by blast
  then show "scanWarp w = running_sums 0 w" by (rule scanWarp_running_sums)
qed

lemma local_sums_before_warps:
  "map scanWarpExclusive (warps xs) = map (running_sums_before 0) (warps xs)"
proof (rule map_cong [OF refl])
  fix w assume "w \<in> set (warps xs)"
  then have "length w \<le> 32" using warps_nonempty by blast
  then show "scanWarpExclusive w = running_sums_before 0 w"
    by (rule scanWarpExclusive_running_sums_before)
qed

lemma carry_in_warps:
  assumes "length xs \<le> 1024"
  shows "carry_in (map (running_sums 0) (warps xs)) =
     running_sums_before 0 (map sum_list (warps xs))"
proof -
  have "map (last \<circ> running_sums 0) (warps xs) = map sum_list (warps xs)"
  proof (rule map_cong [OF refl])
    fix w assume "w \<in> set (warps xs)"
    then have "w \<noteq> []" using warps_nonempty by blast
    then show "(last \<circ> running_sums 0) w = sum_list w"
      by (simp add: last_running_sums)
  qed
  then have tot: "map last (map (running_sums 0) (warps xs)) = map sum_list (warps xs)"
    by simp
  have len: "length (map sum_list (warps xs)) \<le> 32"
    using assms by (simp add: length_warps)
  have "carry_in (map (running_sums 0) (warps xs)) = scanWarpExclusive (map sum_list (warps xs))"
    by (simp only: carry_in_def tot)
  also have "\<dots> = running_sums_before 0 (map sum_list (warps xs))"
    by (rule scanWarpExclusive_running_sums_before [OF len])
  finally show ?thesis .
qed

lemma inclusive_scan_block_running_sums:
  assumes "length xs \<le> 1024"
  shows "inclusive_scan_block logBlockSize xs = running_sums 0 xs"
proof -
  have "inclusive_scan_block logBlockSize xs =
      add_carry (carry_in (map (running_sums 0) (warps xs))) (map (running_sums 0) (warps xs))"
    by (simp only: inclusive_scan_block_def Let_def local_sums_warps)
  also have "\<dots> = running_sums 0 (concat (warps xs))"
    by (simp only: carry_in_warps [OF assms] add_carry_running_sums)
  finally show ?thesis by (simp only: concat_warps)
qed

lemma exclusive_scan_block_running_sums_before:
  assumes "length xs \<le> 1024"
  shows "exclusive_scan_block logBlockSize xs = running_sums_before 0 xs"
proof -
  have "exclusive_scan_block logBlockSize xs =
      add_carry (carry_in (map (running_sums 0) (warps xs)))
        (map (running_sums_before 0) (warps xs))"
    by (simp only: exclusive_scan_block_def Let_def local_sums_warps local_sums_before_warps)
  also have "\<dots> = running_sums_before 0 (concat (warps xs))"
    by (simp only: carry_in_warps [OF assms] add_carry_running_sums_before)
  finally show ?thesis by (simp only: concat_warps)
qed

lemma scanBlock_running_sums:
  assumes "length xs \<le> 1024"
  shows "scanBlock xs = (running_sums 0 xs, running_sums 0 xs)"
proof -
  have "add_carry (carry_in (map scanWarp (warps xs))) (map scanWarp (warps xs)) =
      add_carry (carry_in (map (running_sums 0) (warps xs))) (map (running_sums 0) (warps xs))"
    by (simp only: local_sums_warps)
  also have "\<dots> = running_sums 0 (concat (warps xs))"
    by (simp only: carry_in_warps [OF assms] add_carry_running_sums)
  finally have "add_carry (carry_in (map scanWarp (warps xs))) (map scanWarp (warps xs)) =
      running_sums 0 xs"
    by (simp only: concat_warps)
  then show ?thesis by (simp add: scanBlock_def Let_def)
qed

lemma exclusive_from_slots_running_sums:
  "exclusive_from_slots (running_sums 0 xs) = running_sums_before 0 xs"
proof (rule nth_equalityI)
  show "length (exclusive_from_slots (running_sums 0 xs)) = length (running_sums_before 0 xs)"
    by (simp add: exclusive_from_slots_def)
next
  fix i assume "i < length (exclusive_from_slots (running_sums 0 xs))"
  then have i: "i < length xs" by (simp add: exclusive_from_slots_def)
  show "exclusive_from_slots (running_sums 0 xs) ! i = running_sums_before 0 xs ! i"
  proof (cases i)
    case 0
    with i show ?thesis
      by (simp add: exclusive_from_slots_def running_sums_before_nth)
  next
    case (Suc i')
    with i have "i' < length xs" by simp
    with i Suc show ?thesis
      by (simp add: exclusive_from_slots_def running_sums_before_nth running_sums_nth)
  qed
qed

section \<open>The kernels: one loop iteration, the loop, the grid\<close>

lemma slots_when_read_not_ahead:
  assumes "\<And>t. \<not> ahead t"
  shows "slots_when_read ahead sPartials next_input = sPartials"
  by (simp add: slots_when_read_def assms map_nth)

lemma slots_when_read_nth:
  "t < length sPartials \<Longrightarrow>
   slots_when_read ahead sPartials next_input ! t =
     (if ahead t then next_input ! t else sPartials ! t)"
  by (simp add: slots_when_read_def)

lemma length_slots_when_read [simp]:
  "length (slots_when_read ahead sPartials next_input) = length sPartials"
  by (simp add: slots_when_read_def)

lemma read_previous_slot_not_ahead:
  assumes "\<And>t. \<not> ahead t"
  shows "read_previous_slot ahead h inp N blockDim i sPartials =
     (if i + blockDim < N \<and> length h < inp + (i + blockDim) + blockDim
      then Inl OutOfBounds else Inr (exclusive_from_slots sPartials))"
  by (simp add: read_previous_slot_def load_threads_def slots_when_read_not_ahead [OF assms])

lemma read_previous_slot_last:
  "\<not> i + blockDim < N \<Longrightarrow>
   read_previous_slot ahead h inp N blockDim i sPartials = Inr (exclusive_from_slots sPartials)"
  by (simp add: read_previous_slot_def)

text \<open>One iteration of the loop of the shared-memory kernel, under any schedule.\<close>

lemma kernel_loop_step:
  assumes "blockDim \<le> 1024" and "i < N"
  shows "ScanGPUBlock_kernel_loop ahead scantype out inp N blockDim i h =
     (case load_threads h inp i blockDim of
        Inl e \<Rightarrow> Some (Inl e)
      | Inr vals \<Rightarrow>
          (case (if scantype = Exclusive
                 then read_previous_slot (ahead i) h inp N blockDim i (running_sums 0 vals)
                 else Inr (running_sums 0 vals)) of
             Inl e \<Rightarrow> Some (Inl e)
           | Inr myValue \<Rightarrow>
               (case store_threads h out i myValue of
                  Inl e \<Rightarrow> Some (Inl e)
                | Inr h' \<Rightarrow>
                    ScanGPUBlock_kernel_loop ahead scantype out inp N blockDim (i + blockDim) h')))"
proof (cases "load_threads h inp i blockDim")
  case (Inl e)
  with assms show ?thesis by (subst ScanGPUBlock_kernel_loop.simps) simp
next
  case (Inr vals)
  then have "length vals \<le> 1024"
    using assms(1) by (auto simp: load_threads_def split: if_splits)
  with Inr assms(2) show ?thesis
    by (subst ScanGPUBlock_kernel_loop.simps) (simp add: scanBlock_running_sums)
qed

text \<open>
  One iteration in which no thread runs ahead of the reader of its slot, or which stores
  the inclusive scan: the loop stores the scan of the segment.
\<close>

lemma kernel_loop_step_not_ahead:
  assumes "blockDim \<le> 1024" and "i < N"
    and "\<And>t. scantype = Exclusive \<Longrightarrow> \<not> ahead i t"
    and "i + blockDim < N \<Longrightarrow> inp + (i + blockDim) + blockDim \<le> length h"
  shows "ScanGPUBlock_kernel_loop ahead scantype out inp N blockDim i h =
     (case load_threads h inp i blockDim of
        Inl e \<Rightarrow> Some (Inl e)
      | Inr vals \<Rightarrow>
          (case store_threads h out i
                  (if scantype = Exclusive then running_sums_before 0 vals
                   else running_sums 0 vals) of
             Inl e \<Rightarrow> Some (Inl e)
           | Inr h' \<Rightarrow>
               ScanGPUBlock_kernel_loop ahead scantype out inp N blockDim (i + blockDim) h'))"
proof (cases "scantype = Exclusive")
  case True
  then have "read_previous_slot (ahead i) h inp N blockDim i sPartials =
      Inr (exclusive_from_slots sPartials)" for sPartials
    using assms(3,4) by (subst read_previous_slot_not_ahead) auto
  with True show ?thesis
    by (simp add: kernel_loop_step [OF assms(1,2)] exclusive_from_slots_running_sums
        split: sum.splits)
next
  case False
  then show ?thesis
    by (simp add: kernel_loop_step [OF assms(1,2)] split: sum.splits)
qed

lemma shuffle_kernel_loop_step:
  assumes "blockDim \<le> 1024" and "i < N"
  shows "ScanGPUBlockShuffle_kernel_loop scantype logBlockSize out inp N blockDim i h =
     (case load_threads h inp i blockDim of
        Inl e \<Rightarrow> Some (Inl e)
      | Inr vals \<Rightarrow>
          (case store_threads h out i
                  (if scantype = Exclusive then running_sums_before 0 vals
                   else running_sums 0 vals) of
             Inl e \<Rightarrow> Some (Inl e)
           | Inr h' \<Rightarrow>
               ScanGPUBlockShuffle_kernel_loop scantype logBlockSize out inp N blockDim
                 (i + blockDim) h'))"
proof (cases "load_threads h inp i blockDim")
  case (Inl e)
  with assms show ?thesis by (subst ScanGPUBlockShuffle_kernel_loop.simps) simp
next
  case (Inr vals)
  then have "length vals \<le> 1024"
    using assms(1) by (auto simp: load_threads_def split: if_splits)
  with Inr assms(2) show ?thesis
    by (subst ScanGPUBlockShuffle_kernel_loop.simps)
      (simp add: inclusive_scan_block_running_sums exclusive_scan_block_running_sums_before)
qed

lemma store_threads_length:
  "store_threads h out i myValue = Inr h' \<Longrightarrow> length h' = length h"
  by (auto simp: store_threads_def split: if_splits)

text \<open>
  The loops of the two kernels give the same result when the shared-memory kernel stores
  the inclusive scan, or no thread of it runs ahead of the reader of its slot.
\<close>

lemma kernel_loops_equal:
  assumes "0 < blockDim" and "blockDim \<le> 1024"
    and quiet: "\<And>i t. scantype = Exclusive \<Longrightarrow> \<not> ahead i t"
  shows "ScanGPUBlockShuffle_kernel_loop scantype logBlockSize out inp N blockDim i h =
     ScanGPUBlock_kernel_loop ahead scantype out inp N blockDim i h"
proof (induction "N - i" arbitrary: i h rule: less_induct)
  case less
  show ?case
  proof (cases "i < N")
    case False
    then show ?thesis
      by (subst ScanGPUBlockShuffle_kernel_loop.simps, subst ScanGPUBlock_kernel_loop.simps) simp
  next
    case True
    with assms(1) have "N - (i + blockDim) < N - i" by simp
    note IH = less [OF this]
    show ?thesis
    proof (cases "scantype = Exclusive \<and> i + blockDim < N \<and>
        length h < inp + (i + blockDim) + blockDim")
      case False
      then have "ScanGPUBlock_kernel_loop ahead scantype out inp N blockDim i h =
          (case load_threads h inp i blockDim of
             Inl e \<Rightarrow> Some (Inl e)
           | Inr vals \<Rightarrow>
               (case store_threads h out i
                       (if scantype = Exclusive then running_sums_before 0 vals
                        else running_sums 0 vals) of
                  Inl e \<Rightarrow> Some (Inl e)
                | Inr h' \<Rightarrow>
                    ScanGPUBlock_kernel_loop ahead scantype out inp N blockDim (i + blockDim) h'))"
      proof (cases "scantype = Exclusive")
        case ex: True
        have "read_previous_slot (ahead i) h inp N blockDim i sPartials =
            Inr (exclusive_from_slots sPartials)" for sPartials
          using False ex quiet by (subst read_previous_slot_not_ahead) auto
        with ex show ?thesis
          by (simp add: kernel_loop_step [OF assms(2) True] exclusive_from_slots_running_sums
              split: sum.splits)
      next
        case inc: False
        then show ?thesis
          by (simp add: kernel_loop_step [OF assms(2) True] split: sum.splits)
      qed
      with IH show ?thesis
        by (simp only: shuffle_kernel_loop_step [OF assms(2) True])
    next
      case fault: True
      then have ex: "scantype = Exclusive" and next_iteration: "i + blockDim < N"
        and short: "length h < inp + (i + blockDim) + blockDim"
        by simp_all
      have "read_previous_slot (ahead i) h inp N blockDim i sPartials = Inl OutOfBounds"
        for sPartials
        using fault quiet by (subst read_previous_slot_not_ahead) auto
      with ex have shared: "ScanGPUBlock_kernel_loop ahead scantype out inp N blockDim i h =
          Some (Inl OutOfBounds)"
        by (simp add: kernel_loop_step [OF assms(2) True] load_threads_def split: sum.splits)
      have "ScanGPUBlockShuffle_kernel_loop scantype logBlockSize out inp N blockDim
          (i + blockDim) h' = Some (Inl OutOfBounds)" if "length h' = length h" for h'
        using that short
        by (simp add: shuffle_kernel_loop_step [OF assms(2) next_iteration] load_threads_def)
      then have "ScanGPUBlockShuffle_kernel_loop scantype logBlockSize out inp N blockDim i h =
          Some (Inl OutOfBounds)"
        by (auto simp: shuffle_kernel_loop_step [OF assms(2) True] load_threads_def
            store_threads_def split: sum.splits if_splits)
      with shared show ?thesis by simp
    qed
  qed
qed

lemma segmented_scan_heap_length [simp]:
  "length (segmented_scan_heap scantype B out inp N start h) = length h"
  by (simp add: segmented_scan_heap_def)

lemma segmented_scan_heap_nth:
  "a < length h \<Longrightarrow> segmented_scan_heap scantype B out inp N start h ! a =
     (if out + start \<le> a \<and> a < out + N
      then segment_value scantype B inp h (a - out) else h ! a)"
  by (simp add: segmented_scan_heap_def)

lemma segmented_scan_heap_past:
  assumes "N \<le> start"
  shows "segmented_scan_heap scantype B out inp N start h = h"
proof (rule nth_equalityI)
  show "length (segmented_scan_heap scantype B out inp N start h) = length h" by simp
next
  fix a assume "a < length (segmented_scan_heap scantype B out inp N start h)"
  then have "a < length h" by simp
  with assms show "segmented_scan_heap scantype B out inp N start h ! a = h ! a"
    by (auto simp: segmented_scan_heap_nth)
qed

lemma segmented_scan_heap_outside:
  "a < length h \<Longrightarrow> a < out + start \<or> out + N \<le> a \<Longrightarrow>
   segmented_scan_heap scantype B out inp N start h ! a = h ! a"
  by (auto simp: segmented_scan_heap_nth)

lemma segmented_scan_heap_inside:
  "a < length h \<Longrightarrow> out + start \<le> a \<Longrightarrow> a < out + N \<Longrightarrow>
   segmented_scan_heap scantype B out inp N start h ! a =
     segment_value scantype B inp h (a - out)"
  by (simp add: segmented_scan_heap_nth)

lemma segment_value_cong:
  assumes "\<And>k. k < N \<Longrightarrow> h1 ! (inp + k) = h ! (inp + k)" and "p < N"
  shows "segment_value scantype B inp h1 p = segment_value scantype B inp h p"
proof -
  have "(\<Sum>k = (p div B) * B..<p. h1 ! (inp + k)) = (\<Sum>k = (p div B) * B..<p. h ! (inp + k))"
    using assms by (intro sum.cong [OF refl]) simp
  moreover
  have "(\<Sum>k = (p div B) * B..<Suc p. h1 ! (inp + k)) =
      (\<Sum>k = (p div B) * B..<Suc p. h ! (inp + k))"
    using assms by (intro sum.cong [OF refl]) simp
  ultimately show ?thesis by (simp only: segment_value_def)
qed

lemma period_start_in_segment:
  fixes B :: nat
  assumes "B dvd i" and "l < B"
  shows "((i + l) div B) * B = i"
proof -
  from assms(1) obtain b where b: "i = b * B" by (auto simp: dvd_def mult.commute)
  have "(b * B + l) div B = b + l div B"
    using assms(2) by (intro div_mult_self3) simp
  with assms(2) b show ?thesis by simp
qed

lemma segment_value_local:
  assumes "B dvd i" and "l < B"
  shows "segment_value scantype B inp h (i + l) =
     (if scantype = Exclusive
      then running_sums_before 0 (map (\<lambda>tid. h ! (inp + i + tid)) [0..<B])
      else running_sums 0 (map (\<lambda>tid. h ! (inp + i + tid)) [0..<B])) ! l"
proof -
  let ?seg = "map (\<lambda>tid. h ! (inp + i + tid)) [0..<B]"
  have ex: "running_sums_before 0 ?seg ! l = (\<Sum>k = i..<i + l. h ! (inp + k))"
  proof -
    have "running_sums_before 0 ?seg ! l = (\<Sum>k = 0..<l. ?seg ! k)"
      using assms(2) by (simp add: running_sums_before_nth)
    also have "\<dots> = (\<Sum>k = 0..<l. h ! (inp + (i + k)))"
      using assms(2) by (intro sum.cong [OF refl]) (simp add: add.assoc)
    also have "\<dots> = (\<Sum>k = 0..<(i + l) - i. h ! (inp + (i + k)))" by simp
    also have "\<dots> = (\<Sum>k = i..<i + l. h ! (inp + k))"
      by (rule sum_shift_start [of i "i + l" "\<lambda>k. h ! (inp + k)"]) simp
    finally show ?thesis .
  qed
  have inc: "running_sums 0 ?seg ! l = (\<Sum>k = i..<Suc (i + l). h ! (inp + k))"
  proof -
    have "running_sums 0 ?seg ! l = (\<Sum>k = 0..<Suc l. ?seg ! k)"
      using assms(2) by (simp add: running_sums_nth del: sum.op_ivl_Suc)
    also have "\<dots> = (\<Sum>k = 0..<Suc l. h ! (inp + (i + k)))"
      using assms(2) by (intro sum.cong [OF refl]) (auto simp: add.assoc)
    also have "\<dots> = (\<Sum>k = 0..<Suc (i + l) - i. h ! (inp + (i + k)))"
      by (simp del: sum.op_ivl_Suc)
    also have "\<dots> = (\<Sum>k = i..<Suc (i + l). h ! (inp + k))"
      by (rule sum_shift_start [of i "Suc (i + l)" "\<lambda>k. h ! (inp + k)"]) simp
    finally show ?thesis .
  qed
  show ?thesis
  proof (cases "scantype = Exclusive")
    case True
    with ex show ?thesis
      by (simp only: segment_value_def period_start_in_segment [OF assms] refl if_True)
  next
    case False
    with inc show ?thesis
      by (simp only: segment_value_def period_start_in_segment [OF assms] if_False)
  qed
qed

text \<open>
  The loop of one block, started at a multiple \<open>i\<close> of the block size: it runs \<open>n\<close>
  iterations, up to the first multiple \<open>E\<close> of the block size that is not below \<open>N\<close>, and
  leaves the segmented scan in the output positions \<open>i, ..., E - 1\<close>, when it stores the
  inclusive scan or no thread runs ahead of the reader of its slot from \<open>i\<close> on.
\<close>

lemma kernel_loop_segmented:
  assumes "0 < B" and "B \<le> 1024" and "out + E \<le> inp \<or> inp + E \<le> out" and "N \<le> E"
  shows "E = i + n * B \<Longrightarrow> (0 < n \<Longrightarrow> E < N + B) \<Longrightarrow> B dvd i \<Longrightarrow>
     inp + E \<le> length h \<Longrightarrow> out + E \<le> length h \<Longrightarrow>
     (\<And>i' t. scantype = Exclusive \<Longrightarrow> i \<le> i' \<Longrightarrow> \<not> ahead i' t) \<Longrightarrow>
     ScanGPUBlock_kernel_loop ahead scantype out inp N B i h =
       Some (Inr (segmented_scan_heap scantype B out inp E i h))"
proof (induction n arbitrary: i h)
  case 0
  with assms(4) show ?case
    by (subst ScanGPUBlock_kernel_loop.simps) (simp add: segmented_scan_heap_past)
next
  case (Suc n)
  let ?seg = "map (\<lambda>tid. h ! (inp + i + tid)) [0..<B]"
  let ?vals = "if scantype = Exclusive then running_sums_before 0 ?seg else running_sums 0 ?seg"
  define h1 where "h1 = map (\<lambda>a. if out + i \<le> a \<and> a < out + i + length ?vals
                      then ?vals ! (a - (out + i)) else h ! a) [0..<length h]"
  have lv: "length ?vals = B" by simp
  have len1: "length h1 = length h" by (simp add: h1_def)
  have h1_in: "h1 ! (out + (i + l)) = ?vals ! l" if "l < B" "out + (i + l) < length h" for l
    using that by (simp add: h1_def add.assoc)
  have h1_out: "h1 ! a = h ! a" if "a < length h" "a < out + i \<or> out + (i + B) \<le> a" for a
    using that by (auto simp: h1_def)
  from Suc.prems have iN: "i < N" and fits: "i + B \<le> E" using assms(1) by simp_all
  have next_fits: "inp + (i + B) + B \<le> length h" if "i + B < N"
  proof -
    from that assms(4) Suc.prems(1) have "0 < n" by (cases n) auto
    then have "i + B + B \<le> E" using Suc.prems(1) by (cases n) auto
    with Suc.prems(4) show ?thesis by simp
  qed
  have quiet_here: "\<not> ahead i t" if "scantype = Exclusive" for t
    using Suc.prems(6) [OF that order_refl] .
  have step: "ScanGPUBlock_kernel_loop ahead scantype out inp N B i h =
      ScanGPUBlock_kernel_loop ahead scantype out inp N B (i + B) h1"
    using Suc.prems(4,5) fits lv
    by (subst kernel_loop_step_not_ahead
        [where ahead = ahead and h = h and scantype = scantype, OF assms(2) iN quiet_here next_fits])
      (simp_all add: load_threads_def store_threads_def h1_def)
  have "ScanGPUBlock_kernel_loop ahead scantype out inp N B (i + B) h1 =
      Some (Inr (segmented_scan_heap scantype B out inp E (i + B) h1))"
    using Suc.prems(1-5) len1 Suc.prems(6) by (intro Suc.IH) simp_all
  moreover
  have "segmented_scan_heap scantype B out inp E (i + B) h1 =
      segmented_scan_heap scantype B out inp E i h"
  proof (rule nth_equalityI)
    show "length (segmented_scan_heap scantype B out inp E (i + B) h1) =
        length (segmented_scan_heap scantype B out inp E i h)"
      using len1 by simp
  next
    fix a assume "a < length (segmented_scan_heap scantype B out inp E (i + B) h1)"
    then have a: "a < length h" and a1: "a < length h1" using len1 by simp_all
    have keep: "h1 ! (inp + k) = h ! (inp + k)" if "k < E" for k
      using that assms(3) Suc.prems(4) fits by (intro h1_out) auto
    consider (later) "out + (i + B) \<le> a" "a < out + E"
      | (here) "out + i \<le> a" "a < out + (i + B)"
      | (outside) "a < out + i \<or> out + E \<le> a"
      by linarith
    then show "segmented_scan_heap scantype B out inp E (i + B) h1 ! a =
        segmented_scan_heap scantype B out inp E i h ! a"
    proof cases
      case later
      then have p: "a - out < E" by simp
      have "segmented_scan_heap scantype B out inp E (i + B) h1 ! a =
          segment_value scantype B inp h1 (a - out)"
        using later a1 by (intro segmented_scan_heap_inside)
      also have "\<dots> = segment_value scantype B inp h (a - out)"
        by (rule segment_value_cong [of E, OF keep p])
      also have "\<dots> = segmented_scan_heap scantype B out inp E i h ! a"
        using later a by (intro segmented_scan_heap_inside [symmetric]) simp_all
      finally show ?thesis .
    next
      case here
      define l where "l = a - (out + i)"
      with here have l: "a = out + (i + l)" "l < B" by simp_all
      have "segmented_scan_heap scantype B out inp E (i + B) h1 ! a = h1 ! a"
        using here a1 by (intro segmented_scan_heap_outside) simp_all
      also have "\<dots> = ?vals ! l"
        using l a h1_in [of l] by simp
      also have "\<dots> = segment_value scantype B inp h (i + l)"
        by (rule segment_value_local [OF Suc.prems(3) l(2), symmetric])
      also have "\<dots> = segmented_scan_heap scantype B out inp E i h ! a"
        using l a fits segmented_scan_heap_inside [of a h out i E scantype B inp] by simp
      finally show ?thesis .
    next
      case outside
      have "segmented_scan_heap scantype B out inp E (i + B) h1 ! a = h1 ! a"
        using outside a1 by (intro segmented_scan_heap_outside) auto
      also have "\<dots> = h ! a"
        using outside a fits by (intro h1_out) auto
      also have "\<dots> = segmented_scan_heap scantype B out inp E i h ! a"
        using outside a by (intro segmented_scan_heap_outside [symmetric]) auto
      finally show ?thesis .
    qed
  qed
  ultimately show ?case by (simp only: step)
qed

text \<open>
  One block of the grid. \<open>E\<close> is the first multiple of the block size that is not below
  \<open>N\<close>; it is \<open>N\<close> itself when the block size divides \<open>N\<close>.
\<close>

lemma kernel_segmented:
  assumes "0 < B" and "B \<le> 1024" and "out + E \<le> inp \<or> inp + E \<le> out"
    and "N \<le> E" and "E < N + B" and "B dvd E"
    and "inp + E \<le> length h" and "out + E \<le> length h"
    and "\<And>b i t. scantype = Exclusive \<Longrightarrow> \<not> ahead b i t"
  shows "ScanGPUBlock_kernel ahead scantype out inp N B blockIdx h =
     Some (Inr (segmented_scan_heap scantype B out inp E (blockIdx * B) h))"
proof (cases "blockIdx * B < N")
  case True
  with assms(4) have le: "blockIdx * B \<le> E" by simp
  from assms(6) obtain e where e: "E = e * B" by (auto simp: dvd_def mult.commute)
  with le assms(1) have "blockIdx \<le> e" by simp
  then have E: "E = blockIdx * B + (e - blockIdx) * B"
    using e by (simp add: algebra_simps)
  show ?thesis
    unfolding ScanGPUBlock_kernel_def
    by (rule kernel_loop_segmented [OF assms(1,2,3,4) E _ _ assms(7,8)])
      (use assms(5,9) in simp_all)
next
  case False
  from assms(6) obtain e where e: "E = e * B" by (auto simp: dvd_def mult.commute)
  have "E \<le> blockIdx * B"
  proof (rule ccontr)
    assume "\<not> E \<le> blockIdx * B"
    with e have "blockIdx < e" by (simp add: not_le)
    then have "Suc blockIdx \<le> e" by simp
    then have "Suc blockIdx * B \<le> e * B" by (rule mult_le_mono1)
    with e False assms(5) show False by simp
  qed
  then have "segmented_scan_heap scantype B out inp E (blockIdx * B) h = h"
    by (rule segmented_scan_heap_past)
  with False show ?thesis
    unfolding ScanGPUBlock_kernel_def
    by (subst ScanGPUBlock_kernel_loop.simps) simp
qed

lemma segmented_scan_heap_again:
  assumes "out + E \<le> inp \<or> inp + E \<le> out" and "inp + E \<le> length h"
  shows "segmented_scan_heap scantype B out inp E s2 (segmented_scan_heap scantype B out inp E s1 h) =
     segmented_scan_heap scantype B out inp E (min s1 s2) h"
proof (rule nth_equalityI)
  show "length (segmented_scan_heap scantype B out inp E s2
          (segmented_scan_heap scantype B out inp E s1 h)) =
      length (segmented_scan_heap scantype B out inp E (min s1 s2) h)"
    by simp
next
  let ?h1 = "segmented_scan_heap scantype B out inp E s1 h"
  fix a assume "a < length (segmented_scan_heap scantype B out inp E s2 ?h1)"
  then have a: "a < length h" and a1: "a < length ?h1" by simp_all
  have keep: "?h1 ! (inp + k) = h ! (inp + k)" if "k < E" for k
    using that assms by (intro segmented_scan_heap_outside) auto
  show "segmented_scan_heap scantype B out inp E s2 ?h1 ! a =
      segmented_scan_heap scantype B out inp E (min s1 s2) h ! a"
  proof (cases "out + s2 \<le> a \<and> a < out + E")
    case True
    then have p: "a - out < E" by auto
    have "segmented_scan_heap scantype B out inp E s2 ?h1 ! a =
        segment_value scantype B inp ?h1 (a - out)"
      using True a1 by (intro segmented_scan_heap_inside) simp_all
    also have "\<dots> = segment_value scantype B inp h (a - out)"
      by (rule segment_value_cong [of E, OF keep p])
    also have "\<dots> = segmented_scan_heap scantype B out inp E (min s1 s2) h ! a"
      using True a by (intro segmented_scan_heap_inside [symmetric]) auto
    finally show ?thesis .
  next
    case False
    then have "segmented_scan_heap scantype B out inp E s2 ?h1 ! a = ?h1 ! a"
      using a1 by (intro segmented_scan_heap_outside) auto
    also have "\<dots> = segmented_scan_heap scantype B out inp E (min s1 s2) h ! a"
      using False a by (auto simp: segmented_scan_heap_nth)
    finally show ?thesis .
  qed
qed

text \<open>
  The blocks of a grid, run one after the other in any order \<open>bs\<close>: the output
  positions from the lowest start of a block that ran hold the segmented scan.
\<close>

lemma run_blocks_segmented:
  assumes "0 < B" and "B \<le> 1024" and "out + E \<le> inp \<or> inp + E \<le> out"
    and "N \<le> E" and "E < N + B" and "B dvd E"
    and "inp + E \<le> length h" and "out + E \<le> length h"
    and "\<And>b i t. scantype = Exclusive \<Longrightarrow> \<not> ahead b i t"
  shows "run_blocks (ScanGPUBlock_kernel ahead scantype out inp N B) bs
       (segmented_scan_heap scantype B out inp E s h) =
     Some (Inr (segmented_scan_heap scantype B out inp E
       (fold (\<lambda>blockIdx s. min s (blockIdx * B)) bs s) h))"
proof (induction bs arbitrary: s)
  case Nil
  show ?case by simp
next
  case (Cons b bs)
  have "ScanGPUBlock_kernel ahead scantype out inp N B b
        (segmented_scan_heap scantype B out inp E s h) =
      Some (Inr (segmented_scan_heap scantype B out inp E (b * B)
        (segmented_scan_heap scantype B out inp E s h)))"
    using assms by (intro kernel_segmented) simp_all
  also have "segmented_scan_heap scantype B out inp E (b * B)
        (segmented_scan_heap scantype B out inp E s h) =
      segmented_scan_heap scantype B out inp E (min s (b * B)) h"
    by (rule segmented_scan_heap_again [OF assms(3,7)])
  finally show ?case by (simp add: Cons.IH)
qed

lemma fold_min_zero: "fold (\<lambda>blockIdx s. min s (blockIdx * B)) bs (0::nat) = 0"
  by (induction bs) simp_all

lemma fold_min_first_block:
  "0 \<in> set bs \<Longrightarrow> fold (\<lambda>blockIdx s. min s (blockIdx * B)) bs (s::nat) = 0"
  by (induction bs arbitrary: s) (auto simp: fold_min_zero)

lemma run_blocks_first_block:
  assumes "0 < B" and "B \<le> 1024" and "out + E \<le> inp \<or> inp + E \<le> out"
    and "N \<le> E" and "E < N + B" and "B dvd E"
    and "inp + E \<le> length h" and "out + E \<le> length h"
    and "\<And>b i t. scantype = Exclusive \<Longrightarrow> \<not> ahead b i t"
    and "0 \<in> set bs"
  shows "run_blocks (ScanGPUBlock_kernel ahead scantype out inp N B) bs h =
     Some (Inr (segmented_scan_heap scantype B out inp E 0 h))"
proof -
  have "h = segmented_scan_heap scantype B out inp E E h"
    by (simp add: segmented_scan_heap_past)
  then have "run_blocks (ScanGPUBlock_kernel ahead scantype out inp N B) bs h =
      run_blocks (ScanGPUBlock_kernel ahead scantype out inp N B) bs
        (segmented_scan_heap scantype B out inp E E h)"
    by simp
  also have "\<dots> = Some (Inr (segmented_scan_heap scantype B out inp E
      (fold (\<lambda>blockIdx s. min s (blockIdx * B)) bs E) h))"
    by (rule run_blocks_segmented [OF assms(1-9)])
  finally show ?thesis by (simp only: fold_min_first_block [OF assms(10)])
qed

lemma sint_word_of_nat_small: "q < 2 ^ 31 \<Longrightarrow> sint (word_of_nat q :: 32 word) = int q"
  by (simp add: signed_of_nat signed_take_bit_int_eq_self)

lemma cBlocks_of_positive:
  assumes "150 \<le> N" and "N < 150 * 2 ^ 31"
  shows "0 < cBlocks_of N"
proof -
  from assms have q: "N div 150 < 2 ^ 31" "1 \<le> N div 150"
    by (simp_all add: less_mult_imp_div_less Suc_le_eq div_greater_zero_iff)
  from sint_word_of_nat_small [OF q(1)] q(2) show ?thesis
    by (simp add: cBlocks_of_def Let_def)
qed

lemma ScanGPUBlock_launched:
  assumes "0 < B" and "B \<le> 1024" and "out + E \<le> inp \<or> inp + E \<le> out"
    and "N \<le> E" and "E < N + B" and "B dvd E"
    and "inp + E \<le> length h" and "out + E \<le> length h"
    and "150 \<le> N" and "N < 150 * 2 ^ 31" and "B \<le> maxThreads"
    and "\<And>b i t. scantype = Exclusive \<Longrightarrow> \<not> ahead b i t"
  shows "ScanGPUBlock ahead maxThreads scantype out inp N (int B) h =
     Some (Inr (segmented_scan_heap scantype B out inp E 0 h))"
proof -
  from cBlocks_of_positive [OF assms(9,10)] have c: "0 < cBlocks_of N" .
  then have "0 \<in> set [0..<nat (cBlocks_of N)]" by simp
  from run_blocks_first_block [OF assms(1-8,12) this] c assms(1,11) show ?thesis
    by (simp add: ScanGPUBlock_def launch_def)
qed

text \<open>
  An iteration of the exclusive scan in which thread \<open>t\<close> runs ahead: thread \<open>t + 1\<close> finds
  the next input of thread \<open>t\<close> in slot \<open>t\<close> and stores it as its result. The iterations
  after it are taken without a thread ahead, and leave the position alone.
\<close>

lemma kernel_loop_slot_overwritten:
  assumes "0 < B" and "B \<le> 1024" and "out + E \<le> inp \<or> inp + E \<le> out"
    and "N \<le> E" and "E < N + B" and "E = i + B + n * B" and "i + B < N" and "B dvd i"
    and "inp + E \<le> length h" and "out + E \<le> length h"
    and "\<And>i' t'. i + B \<le> i' \<Longrightarrow> \<not> ahead i' t'"
    and "Suc t < B" and "ahead i t"
  shows "\<exists>h'. ScanGPUBlock_kernel_loop ahead Exclusive out inp N B i h = Some (Inr h') \<and>
     h' ! (out + i + Suc t) = h ! (inp + (i + B) + t)"
proof -
  let ?seg = "map (\<lambda>tid. h ! (inp + i + tid)) [0..<B]"
  let ?next = "map (\<lambda>tid. h ! (inp + (i + B) + tid)) [0..<B]"
  let ?vals = "exclusive_from_slots (slots_when_read (ahead i) (running_sums 0 ?seg) ?next)"
  define h1 where "h1 = map (\<lambda>a. if out + i \<le> a \<and> a < out + i + length ?vals
                      then ?vals ! (a - (out + i)) else h ! a) [0..<length h]"
  have lv: "length ?vals = B" by (simp add: exclusive_from_slots_def)
  have len1: "length h1 = length h" by (simp add: h1_def)
  from assms(4,6,7) have n: "0 < n" by (cases n) auto
  then have fits: "i + B + B \<le> E" using assms(6) by (cases n) auto
  from assms(7) have iN: "i < N" by simp
  have step: "ScanGPUBlock_kernel_loop ahead Exclusive out inp N B i h =
      ScanGPUBlock_kernel_loop ahead Exclusive out inp N B (i + B) h1"
    using assms(7,9,10) fits lv
    by (subst kernel_loop_step [OF assms(2) iN])
      (simp add: load_threads_def store_threads_def read_previous_slot_def h1_def)
  have rest: "ScanGPUBlock_kernel_loop ahead Exclusive out inp N B (i + B) h1 =
      Some (Inr (segmented_scan_heap Exclusive B out inp E (i + B) h1))"
    using assms(5,6,8,9,10,11) len1
    by (intro kernel_loop_segmented [OF assms(1,2,3,4), of "i + B" n]) simp_all
  have a: "out + i + Suc t < length h1"
    using assms(10,12) fits len1 by simp
  have "segmented_scan_heap Exclusive B out inp E (i + B) h1 ! (out + i + Suc t) =
      h1 ! (out + i + Suc t)"
    using a assms(12) by (intro segmented_scan_heap_outside) simp_all
  also have "\<dots> = ?vals ! Suc t"
    using a len1 assms(12) lv by (simp add: h1_def)
  also have "\<dots> = slots_when_read (ahead i) (running_sums 0 ?seg) ?next ! t"
    using assms(12) by (simp add: exclusive_from_slots_def)
  also have "\<dots> = ?next ! t"
    using assms(12,13) by (simp add: slots_when_read_nth)
  also have "\<dots> = h ! (inp + (i + B) + t)"
    using assms(12) by simp
  finally show ?thesis
    using step rest by simp
qed

lemma cBlocks_of_one:
  assumes "150 \<le> N" and "N < 300"
  shows "cBlocks_of N = 1"
proof -
  from assms have "N div 150 = 1" by (simp add: div_nat_eqI)
  then show ?thesis by (simp add: cBlocks_of_def)
qed

text \<open>
  The exclusive driver on an array that one block scans in two iterations or more: when
  thread \<open>t\<close> of the block runs ahead in the first iteration, the output position \<open>t + 1\<close>
  holds the input at \<open>B + t\<close> and not the sum of the inputs before the position.
\<close>

lemma ScanGPUBlock_slot_overwritten:
  assumes "0 < B" and "B \<le> 1024" and "out + E \<le> inp \<or> inp + E \<le> out"
    and "N \<le> E" and "E < N + B" and "E = B + n * B" and "B < N"
    and "inp + E \<le> length h" and "out + E \<le> length h"
    and "\<And>i' t'. B \<le> i' \<Longrightarrow> \<not> ahead 0 i' t'"
    and "Suc t < B" and "ahead 0 0 t"
    and "150 \<le> N" and "N < 300" and "B \<le> maxThreads"
  shows "\<exists>h'. ScanGPUBlock ahead maxThreads Exclusive out inp N (int B) h = Some (Inr h') \<and>
     h' ! (out + Suc t) = h ! (inp + B + t)"
proof -
  have "\<exists>h'. ScanGPUBlock_kernel_loop (ahead 0) Exclusive out inp N B 0 h = Some (Inr h') \<and>
      h' ! (out + 0 + Suc t) = h ! (inp + (0 + B) + t)"
    using assms(5-12)
    by (intro kernel_loop_slot_overwritten [OF assms(1,2,3,4), of 0 n]) simp_all
  then obtain h' where
    "ScanGPUBlock_kernel_loop (ahead 0) Exclusive out inp N B 0 h = Some (Inr h')"
    and "h' ! (out + Suc t) = h ! (inp + B + t)"
    by auto
  with cBlocks_of_one [OF assms(13,14)] assms(1,15) show ?thesis
    by (simp add: ScanGPUBlock_def launch_def ScanGPUBlock_kernel_def)
qed



section \<open>The test harness: its input does not depend on the generator\<close>

lemma RandomArray_frame:
  "out + N \<le> length h \<Longrightarrow> modulus \<noteq> 0 \<Longrightarrow>
   \<exists>h' r'. RandomArray rand out N modulus i (h, r) = Inr (h', r') \<and> length h' = length h \<and>
     (\<forall>a. a < out + i \<or> out + N \<le> a \<longrightarrow> h' ! a = h ! a)"
proof (induction rand out N modulus i "(h, r)" arbitrary: h r rule: RandomArray.induct)
  case (1 rand out N modulus i h r)
  show ?case
  proof (cases "i < N")
    case False
    then show ?thesis by (subst RandomArray.simps) simp
  next
    case True
    obtain v r1 where v: "rand r = (v, r1)" by (cases "rand r")
    let ?h1 = "h[out + i := word_of_int (int v mod \<bar>modulus\<bar>)]"
    from True "1.prems" have b: "out + i < length h" by simp
    from "1.prems" have pre: "out + N \<le> length ?h1" by simp
    from "1.hyps" [OF True v [symmetric] refl "1.prems"(2) b pre "1.prems"(2)]
    obtain h' r' where
      r: "RandomArray rand out N modulus (i + 1) (?h1, r1) = Inr (h', r')"
      and len: "length h' = length ?h1"
      and fr: "\<And>a. a < out + (i + 1) \<or> out + N \<le> a \<Longrightarrow> h' ! a = ?h1 ! a"
      by blast
    have "RandomArray rand out N modulus i (h, r) = Inr (h', r')"
      using True v b "1.prems"(2) r by (subst RandomArray.simps) simp
    moreover have "length h' = length h" using len by simp
    moreover have "h' ! a = h ! a" if "a < out + i \<or> out + N \<le> a" for a
    proof -
      have "h' ! a = ?h1 ! a" using that by (intro fr) auto
      also have "\<dots> = h ! a" using that True by auto
      finally show ?thesis .
    qed
    ultimately show ?thesis by blast
  qed
qed

lemma TestScanBlock_fill_result:
  "inCPU + N \<le> length h \<Longrightarrow>
   \<exists>h'. TestScanBlock_fill inCPU N i h = Inr h' \<and> length h' = length h \<and>
     (\<forall>a<length h. h' ! a =
        (if inCPU + i \<le> a \<and> a < inCPU + N then word_of_nat (a - inCPU) else h ! a))"
proof (induction inCPU N i h rule: TestScanBlock_fill.induct)
  case (1 inCPU N i h)
  show ?case
  proof (cases "i < N")
    case False
    then show ?thesis by (subst TestScanBlock_fill.simps) auto
  next
    case True
    let ?h1 = "h[inCPU + i := word_of_nat i]"
    from True "1.prems" have b: "inCPU + i < length h" by simp
    from "1.prems" have pre: "inCPU + N \<le> length ?h1" by simp
    from "1.IH" [OF True b pre] obtain h' where
      r: "TestScanBlock_fill inCPU N (i + 1) ?h1 = Inr h'"
      and len: "length h' = length ?h1"
      and v: "\<And>a. a < length ?h1 \<Longrightarrow> h' ! a =
        (if inCPU + (i + 1) \<le> a \<and> a < inCPU + N then word_of_nat (a - inCPU) else ?h1 ! a)"
      by blast
    have "TestScanBlock_fill inCPU N i h = Inr h'"
      using True b r by (subst TestScanBlock_fill.simps) simp
    moreover have "length h' = length h" using len by simp
    moreover have "h' ! a =
        (if inCPU + i \<le> a \<and> a < inCPU + N then word_of_nat (a - inCPU) else h ! a)"
      if "a < length h" for a
    proof (cases "a = inCPU + i")
      case True
      with v [of a] that \<open>i < N\<close> show ?thesis by simp
    next
      case False
      with v [of a] that show ?thesis by auto
    qed
    ultimately show ?thesis by blast
  qed
qed

lemma TestScanBlock_inCPU_result:
  "\<exists>r'. TestScanBlock_inCPU rand r N junk =
     Inr (map (\<lambda>a. if a < N then word_of_nat a else junk a) [0..<3 * N], r')"
proof -
  have "0 + N \<le> length (map junk [0..<3 * N])" by simp
  from RandomArray_frame [OF this, of 256 rand 0 r] obtain h1 r' where
    r1: "RandomArray rand 0 N 256 0 (map junk [0..<3 * N], r) = Inr (h1, r')"
    and len1: "length h1 = 3 * N"
    and fr1: "\<And>a. N \<le> a \<Longrightarrow> h1 ! a = map junk [0..<3 * N] ! a"
    by auto
  from len1 have "0 + N \<le> length h1" by simp
  from TestScanBlock_fill_result [OF this, of 0] obtain h2 where
    r2: "TestScanBlock_fill 0 N 0 h1 = Inr h2"
    and len2: "length h2 = length h1"
    and v2: "\<And>a. a < length h1 \<Longrightarrow> h2 ! a = (if a < N then word_of_nat a else h1 ! a)"
    by auto
  have "h2 = map (\<lambda>a. if a < N then word_of_nat a else junk a) [0..<3 * N]"
  proof (rule nth_equalityI)
    show "length h2 = length (map (\<lambda>a. if a < N then word_of_nat a else junk a) [0..<3 * N])"
      using len1 len2 by simp
  next
    fix a assume "a < length h2"
    then have a: "a < 3 * N" using len1 len2 by simp
    with v2 [of a] fr1 [of a] len1
    show "h2 ! a = map (\<lambda>a. if a < N then word_of_nat a else junk a) [0..<3 * N] ! a"
      by auto
  qed
  with r1 r2 show ?thesis by (simp add: TestScanBlock_inCPU_def)
qed

lemma last_of_period:
  fixes B :: nat
  assumes "0 < B"
  shows "((g * B + (B - 1)) div B) * B = g * B"
proof -
  have "(g * B + (B - 1)) div B = g + (B - 1) div B"
    using assms by (intro div_mult_self3) simp
  with assms show ?thesis by simp
qed

lemma ScanInclusiveCPUPeriodic_value:
  assumes "0 < B" and "B dvd N"
    and "inp + N \<le> length h" and "out + N \<le> length h"
    and "out \<le> inp \<or> inp + N \<le> out"
  shows "\<exists>h'. ScanInclusiveCPUPeriodic B out inp N h = Some (Inr h') \<and> length h' = length h \<and>
           (\<forall>p<N. h' ! (out + p) = (\<Sum>k = (p div B) * B..p. h ! (inp + k)))"
proof -
  from \<open>B dvd N\<close> obtain n where n: "N = 0 + n * B" by (auto simp: dvd_def mult.commute)
  with assms have b: "N \<le> 0 + n * B" "inp + 0 + n * B \<le> length h" "out + 0 + n * B \<le> length h"
    by simp_all
  from Inclusive_outer_props [OF \<open>0 < B\<close> b] obtain h' where
    r: "ScanInclusiveCPUPeriodic_outer B out inp N 0 h = Some (Inr h')"
    and len: "length h' = length h" by blast
  have "h' ! (out + p) = (\<Sum>k = (p div B) * B..p. h ! (inp + k))" if "p < N" for p
    using Inclusive_outer_value [OF \<open>0 < B\<close> n assms(5) r assms(3,4) _ that]
    by (simp add: atLeastLessThanSuc_atLeastAtMost)
  with r len show ?thesis by (simp add: ScanInclusiveCPUPeriodic_def)
qed

lemma ScanExclusiveCPUPeriodic_value:
  assumes "0 < B" and "B dvd N"
    and "inp + N \<le> length h" and "out + N \<le> length h"
    and "out \<le> inp \<or> inp + N \<le> out"
  shows "\<exists>h'. ScanExclusiveCPUPeriodic B out inp N h = Some (Inr h') \<and> length h' = length h \<and>
           (\<forall>p<N. h' ! (out + p) = (\<Sum>k = (p div B) * B..<p. h ! (inp + k)))"
proof -
  from \<open>B dvd N\<close> obtain n where n: "N = 0 + n * B" by (auto simp: dvd_def mult.commute)
  with assms have b: "N \<le> 0 + n * B" "inp + 0 + n * B \<le> length h" "out + 0 + n * B \<le> length h"
    by simp_all
  from Exclusive_outer_props [OF \<open>0 < B\<close> b] obtain h' where
    r: "ScanExclusiveCPUPeriodic_outer B out inp N 0 h = Some (Inr h')"
    and len: "length h' = length h" by blast
  have "h' ! (out + p) = (\<Sum>k = (p div B) * B..<p. h ! (inp + k))" if "p < N" for p
    using Exclusive_outer_value [OF \<open>0 < B\<close> n assms(5) r assms(3,4) _ that] by simp
  with r len show ?thesis by (simp add: ScanExclusiveCPUPeriodic_def)
qed

section \<open>The CPU reference scans: claims\<close>

text \<open>
  Claim C1. For an input array whose length \<open>N\<close> is a multiple of the period \<open>B\<close>, the CPU
  reference scans return and produce the segmented scan: the inclusive output at position
  \<open>p\<close> is the sum of the inputs from the start of \<open>p\<close>'s period, \<open>(p div B) * B\<close>, through
  \<open>p\<close>, and the exclusive output at \<open>p\<close> is the sum of the inputs of that period strictly
  before \<open>p\<close> (the empty sum, 0, at every period boundary). The output buffer is the
  input buffer itself, or lies before it, or does not overlap it.
\<close>

theorem ScanCPUPeriodic_segmented_scan:
  assumes "0 < B" and "B dvd N"
    and "inp + N \<le> length h" and "out + N \<le> length h"
    and "out \<le> inp \<or> inp + N \<le> out"
  shows "(\<exists>h'. ScanInclusiveCPUPeriodic B out inp N h = Some (Inr h') \<and>
            (\<forall>p<N. h' ! (out + p) = (\<Sum>k = (p div B) * B..p. h ! (inp + k)))) \<and>
         (\<exists>h'. ScanExclusiveCPUPeriodic B out inp N h = Some (Inr h') \<and>
            (\<forall>p<N. h' ! (out + p) = (\<Sum>k = (p div B) * B..<p. h ! (inp + k))))"
proof
  from ScanInclusiveCPUPeriodic_value [OF assms]
  show "\<exists>h'. ScanInclusiveCPUPeriodic B out inp N h = Some (Inr h') \<and>
            (\<forall>p<N. h' ! (out + p) = (\<Sum>k = (p div B) * B..p. h ! (inp + k)))"
    by blast
next
  from ScanExclusiveCPUPeriodic_value [OF assms]
  show "\<exists>h'. ScanExclusiveCPUPeriodic B out inp N h = Some (Inr h') \<and>
            (\<forall>p<N. h' ! (out + p) = (\<Sum>k = (p div B) * B..<p. h ! (inp + k)))"
    by blast
qed

theorem ScanCPUPeriodic_segmented_scan_witness:
  "(0::nat) < 2 \<and> (2::nat) dvd 4 \<and> 0 + 4 \<le> length [1, 2, 3, 4, 0, 0, 0, 0 :: int32] \<and>
   4 + 4 \<le> length [1, 2, 3, 4, 0, 0, 0, 0 :: int32] \<and>
   ((4::nat) \<le> 0 \<or> (0::nat) + 4 \<le> 4) \<and>
   (\<exists>h'. ScanInclusiveCPUPeriodic 2 4 0 4 [1, 2, 3, 4, 0, 0, 0, 0] = Some (Inr h') \<and>
      h' ! (4 + 3) = 7) \<and>
   (\<exists>h'. ScanExclusiveCPUPeriodic 2 4 0 4 [1, 2, 3, 4, 0, 0, 0, 0] = Some (Inr h') \<and>
      h' ! (4 + 3) = 3)"
proof -
  have hyps: "(0::nat) < 2" "(2::nat) dvd 4" "0 + 4 \<le> length [1, 2, 3, 4, 0, 0, 0, 0 :: int32]"
    "4 + 4 \<le> length [1, 2, 3, 4, 0, 0, 0, 0 :: int32]" "(4::nat) \<le> 0 \<or> (0::nat) + 4 \<le> 4"
    by simp_all
  from ScanCPUPeriodic_segmented_scan [OF hyps]
  obtain h1 h2 where
    i: "ScanInclusiveCPUPeriodic 2 4 0 4 [1, 2, 3, 4, 0, 0, 0, 0] = Some (Inr h1)"
      "\<forall>p<4. h1 ! (4 + p) = (\<Sum>k = (p div 2) * 2..p. [1, 2, 3, 4, 0, 0, 0, 0 :: int32] ! (0 + k))"
    and e: "ScanExclusiveCPUPeriodic 2 4 0 4 [1, 2, 3, 4, 0, 0, 0, 0] = Some (Inr h2)"
      "\<forall>p<4. h2 ! (4 + p) = (\<Sum>k = (p div 2) * 2..<p. [1, 2, 3, 4, 0, 0, 0, 0 :: int32] ! (0 + k))"
    by blast
  have "(3::nat) < 4" by simp
  with i(2) have "h1 ! (4 + 3) = (\<Sum>k = (3 div 2) * 2..3. [1, 2, 3, 4, 0, 0, 0, 0 :: int32] ! (0 + k))"
    by blast
  also have "\<dots> = 7" by code_simp
  finally have v1: "h1 ! (4 + 3) = 7" .
  from \<open>(3::nat) < 4\<close> e(2)
  have "h2 ! (4 + 3) = (\<Sum>k = (3 div 2) * 2..<3. [1, 2, 3, 4, 0, 0, 0, 0 :: int32] ! (0 + k))"
    by blast
  also have "\<dots> = 3" by code_simp
  finally have v2: "h2 ! (4 + 3) = 3" .
  from hyps i(1) e(1) v1 v2 show ?thesis by blast
qed

text \<open>
  Claim C7. For an input array whose length is a multiple of the block size \<open>B\<close>, after the
  inclusive scan the value at the last position of every period, position
  \<open>g * B + (B - 1)\<close> of segment \<open>g\<close>, is the sum of all \<open>B\<close> inputs of that segment.
\<close>

theorem ScanInclusiveCPUPeriodic_last_is_total:
  assumes "0 < B" and "B dvd N"
    and "inp + N \<le> length h" and "out + N \<le> length h"
    and "out \<le> inp \<or> inp + N \<le> out"
    and "g * B + B \<le> N"
  shows "\<exists>h'. ScanInclusiveCPUPeriodic B out inp N h = Some (Inr h') \<and>
           h' ! (out + (g * B + (B - 1))) = (\<Sum>k = g * B..<g * B + B. h ! (inp + k))"
proof -
  from ScanInclusiveCPUPeriodic_value [OF assms(1-5)] obtain h' where
    r: "ScanInclusiveCPUPeriodic B out inp N h = Some (Inr h')"
    and v: "\<And>p. p < N \<Longrightarrow> h' ! (out + p) = (\<Sum>k = (p div B) * B..p. h ! (inp + k))"
    by blast
  have "g * B + (B - 1) < N" using assms(1,6) by simp
  from v [OF this] have "h' ! (out + (g * B + (B - 1))) =
      (\<Sum>k = g * B..g * B + (B - 1). h ! (inp + k))"
    by (simp only: last_of_period [OF \<open>0 < B\<close>])
  also have "{g * B..g * B + (B - 1)} = {g * B..<g * B + B}"
    using \<open>0 < B\<close> by auto
  finally show ?thesis using r by blast
qed

theorem ScanInclusiveCPUPeriodic_last_is_total_witness:
  "(0::nat) < 2 \<and> (2::nat) dvd 4 \<and> 0 + 4 \<le> length [1, 2, 3, 4, 0, 0, 0, 0 :: int32] \<and>
   4 + 4 \<le> length [1, 2, 3, 4, 0, 0, 0, 0 :: int32] \<and>
   ((4::nat) \<le> 0 \<or> (0::nat) + 4 \<le> 4) \<and> (1::nat) * 2 + 2 \<le> 4 \<and>
   (\<exists>h'. ScanInclusiveCPUPeriodic 2 4 0 4 [1, 2, 3, 4, 0, 0, 0, 0] = Some (Inr h') \<and>
      h' ! (4 + (1 * 2 + (2 - 1))) = 3 + 4)"
proof -
  have hyps: "(0::nat) < 2" "(2::nat) dvd 4" "0 + 4 \<le> length [1, 2, 3, 4, 0, 0, 0, 0 :: int32]"
    "4 + 4 \<le> length [1, 2, 3, 4, 0, 0, 0, 0 :: int32]" "(4::nat) \<le> 0 \<or> (0::nat) + 4 \<le> 4"
    "(1::nat) * 2 + 2 \<le> 4"
    by simp_all
  from ScanInclusiveCPUPeriodic_last_is_total [OF hyps]
  obtain h' where r: "ScanInclusiveCPUPeriodic 2 4 0 4 [1, 2, 3, 4, 0, 0, 0, 0] = Some (Inr h')"
    and v: "h' ! (4 + (1 * 2 + (2 - 1))) =
      (\<Sum>k = 1 * 2..<1 * 2 + 2. [1, 2, 3, 4, 0, 0, 0, 0 :: int32] ! (0 + k))"
    by blast
  have "(\<Sum>k = 1 * 2..<1 * 2 + (2::nat). [1, 2, 3, 4, 0, 0, 0, 0 :: int32] ! (0 + k)) = 3 + 4"
    by code_simp
  with v have "h' ! (4 + (1 * 2 + (2 - 1))) = 3 + 4" by (simp only:)
  with hyps r show ?thesis by blast
qed

text \<open>
  Claim C8. For every input array and every period \<open>B > 0\<close>, the exclusive scan returns
  and its output at the first position of every period (positions \<open>0, B, 2 B, ...\<close> below
  \<open>N\<close>) is 0, whatever the input values and however the two buffers overlap. \<open>N\<close> need not
  be a multiple of \<open>B\<close>: the buffers only have to reach to the end of the last period the
  loop starts, \<open>n\<close> periods in all.
\<close>

theorem ScanExclusiveCPUPeriodic_period_start_zero:
  assumes "0 < B" and "N \<le> n * B"
    and "inp + n * B \<le> length h" and "out + n * B \<le> length h"
  shows "\<exists>h'. ScanExclusiveCPUPeriodic B out inp N h = Some (Inr h') \<and>
           (\<forall>k. k * B < N \<longrightarrow> h' ! (out + k * B) = 0)"
proof -
  from assms have b: "N \<le> 0 + n * B" "inp + 0 + n * B \<le> length h" "out + 0 + n * B \<le> length h"
    by simp_all
  from Exclusive_outer_props [OF \<open>0 < B\<close> b] show ?thesis
    by (auto simp: ScanExclusiveCPUPeriodic_def)
qed

theorem ScanExclusiveCPUPeriodic_period_start_zero_witness:
  "(0::nat) < 2 \<and> (3::nat) \<le> 2 * 2 \<and> 0 + 2 * 2 \<le> length [5, 6, 7, 8 :: int32] \<and>
   (\<exists>h'. ScanExclusiveCPUPeriodic 2 0 0 3 [5, 6, 7, 8] = Some (Inr h') \<and>
      h' ! (0 + 0 * 2) = 0 \<and> h' ! (0 + 1 * 2) = 0)"
proof -
  have hyps: "(0::nat) < 2" "(3::nat) \<le> 2 * 2" "0 + 2 * 2 \<le> length [5, 6, 7, 8 :: int32]"
    "0 + 2 * 2 \<le> length [5, 6, 7, 8 :: int32]"
    by simp_all
  from ScanExclusiveCPUPeriodic_period_start_zero [OF hyps]
  obtain h' where r: "ScanExclusiveCPUPeriodic 2 0 0 3 [5, 6, 7, 8] = Some (Inr h')"
    and z: "\<And>k. k * 2 < (3::nat) \<Longrightarrow> h' ! (0 + k * 2) = 0"
    by blast
  from z [of 0] z [of 1] have "h' ! (0 + 0 * 2) = 0" "h' ! (0 + 1 * 2) = 0" by simp_all
  with hyps r show ?thesis by blast
qed

text \<open>
  Claim C9. Both CPU reference scans can be run in place: for an input array whose length
  is a multiple of the period, the call whose output buffer is the input buffer returns
  and leaves in that buffer the same \<open>N\<close> values that the call with a separate output
  buffer, on the same input, returns and leaves in the output buffer.
\<close>

theorem ScanCPUPeriodic_in_place:
  assumes "0 < B" and "B dvd N"
    and "inp + N \<le> length h" and "out + N \<le> length h"
    and "out + N \<le> inp \<or> inp + N \<le> out"
  shows "(\<exists>h1 h2. ScanExclusiveCPUPeriodic B inp inp N h = Some (Inr h1) \<and>
            ScanExclusiveCPUPeriodic B out inp N h = Some (Inr h2) \<and>
            take N (drop inp h1) = take N (drop out h2)) \<and>
         (\<exists>h1 h2. ScanInclusiveCPUPeriodic B inp inp N h = Some (Inr h1) \<and>
            ScanInclusiveCPUPeriodic B out inp N h = Some (Inr h2) \<and>
            take N (drop inp h1) = take N (drop out h2))"
proof
  have sep: "out \<le> inp \<or> inp + N \<le> out" using assms(5) by auto
  from ScanExclusiveCPUPeriodic_value [OF assms(1,2,3,3)] obtain h1 where
    r1: "ScanExclusiveCPUPeriodic B inp inp N h = Some (Inr h1)" and l1: "length h1 = length h"
    and v1: "\<And>p. p < N \<Longrightarrow> h1 ! (inp + p) = (\<Sum>k = (p div B) * B..<p. h ! (inp + k))"
    by auto
  from ScanExclusiveCPUPeriodic_value [OF assms(1,2,3,4) sep] obtain h2 where
    r2: "ScanExclusiveCPUPeriodic B out inp N h = Some (Inr h2)" and l2: "length h2 = length h"
    and v2: "\<And>p. p < N \<Longrightarrow> h2 ! (out + p) = (\<Sum>k = (p div B) * B..<p. h ! (inp + k))"
    by blast
  have "take N (drop inp h1) = take N (drop out h2)"
  proof (rule nth_equalityI)
    show "length (take N (drop inp h1)) = length (take N (drop out h2))"
      using l1 l2 assms(3,4) by simp
  next
    fix p assume "p < length (take N (drop inp h1))"
    then have p: "p < N" by simp
    with l1 l2 assms(3,4) v1 [OF p] v2 [OF p]
    show "take N (drop inp h1) ! p = take N (drop out h2) ! p" by simp
  qed
  with r1 r2 show "\<exists>h1 h2. ScanExclusiveCPUPeriodic B inp inp N h = Some (Inr h1) \<and>
      ScanExclusiveCPUPeriodic B out inp N h = Some (Inr h2) \<and>
      take N (drop inp h1) = take N (drop out h2)"
    by blast
next
  have sep: "out \<le> inp \<or> inp + N \<le> out" using assms(5) by auto
  from ScanInclusiveCPUPeriodic_value [OF assms(1,2,3,3)] obtain h1 where
    r1: "ScanInclusiveCPUPeriodic B inp inp N h = Some (Inr h1)" and l1: "length h1 = length h"
    and v1: "\<And>p. p < N \<Longrightarrow> h1 ! (inp + p) = (\<Sum>k = (p div B) * B..p. h ! (inp + k))"
    by auto
  from ScanInclusiveCPUPeriodic_value [OF assms(1,2,3,4) sep] obtain h2 where
    r2: "ScanInclusiveCPUPeriodic B out inp N h = Some (Inr h2)" and l2: "length h2 = length h"
    and v2: "\<And>p. p < N \<Longrightarrow> h2 ! (out + p) = (\<Sum>k = (p div B) * B..p. h ! (inp + k))"
    by blast
  have "take N (drop inp h1) = take N (drop out h2)"
  proof (rule nth_equalityI)
    show "length (take N (drop inp h1)) = length (take N (drop out h2))"
      using l1 l2 assms(3,4) by simp
  next
    fix p assume "p < length (take N (drop inp h1))"
    then have p: "p < N" by simp
    with l1 l2 assms(3,4) v1 [OF p] v2 [OF p]
    show "take N (drop inp h1) ! p = take N (drop out h2) ! p" by simp
  qed
  with r1 r2 show "\<exists>h1 h2. ScanInclusiveCPUPeriodic B inp inp N h = Some (Inr h1) \<and>
      ScanInclusiveCPUPeriodic B out inp N h = Some (Inr h2) \<and>
      take N (drop inp h1) = take N (drop out h2)"
    by blast
qed

theorem ScanCPUPeriodic_in_place_witness:
  "(0::nat) < 2 \<and> (2::nat) dvd 4 \<and> 0 + 4 \<le> length [1, 2, 3, 4, 9, 9, 9, 9 :: int32] \<and>
   4 + 4 \<le> length [1, 2, 3, 4, 9, 9, 9, 9 :: int32] \<and>
   ((4::nat) + 4 \<le> 0 \<or> (0::nat) + 4 \<le> 4) \<and>
   (\<exists>h1 h2. ScanExclusiveCPUPeriodic 2 0 0 4 [1, 2, 3, 4, 9, 9, 9, 9] = Some (Inr h1) \<and>
      ScanExclusiveCPUPeriodic 2 4 0 4 [1, 2, 3, 4, 9, 9, 9, 9] = Some (Inr h2) \<and>
      take 4 (drop 0 h1) = take 4 (drop 4 h2)) \<and>
   (\<exists>h1 h2. ScanInclusiveCPUPeriodic 2 0 0 4 [1, 2, 3, 4, 9, 9, 9, 9] = Some (Inr h1) \<and>
      ScanInclusiveCPUPeriodic 2 4 0 4 [1, 2, 3, 4, 9, 9, 9, 9] = Some (Inr h2) \<and>
      take 4 (drop 0 h1) = take 4 (drop 4 h2))"
proof -
  have hyps: "(0::nat) < 2" "(2::nat) dvd 4" "0 + 4 \<le> length [1, 2, 3, 4, 9, 9, 9, 9 :: int32]"
    "4 + 4 \<le> length [1, 2, 3, 4, 9, 9, 9, 9 :: int32]" "(4::nat) + 4 \<le> 0 \<or> (0::nat) + 4 \<le> 4"
    by simp_all
  from hyps ScanCPUPeriodic_in_place [OF hyps] show ?thesis by blast
qed

text \<open>
  Claim C3. \<^verbatim>\<open>ScanCPUBlock\<close> called with \<open>numThreads = 128\<close> on 128 elements takes the
  default branch of its switch: it returns with memory unchanged. With the input all ones
  at address 0 and the output buffer, all zero, at address 128, the first output stays 0,
  where the inclusive scan of the segment has the first input, 1.
\<close>

theorem ScanCPUBlock_128_leaves_output:
  "ScanCPUBlock Inclusive 128 0 128 128 (replicate 128 1 @ replicate 128 0) =
     Some (Inr (replicate 128 1 @ replicate 128 0)) \<and>
   (replicate 128 1 @ replicate 128 0 :: heap) ! (128 + 0) = 0 \<and>
   (replicate 128 1 @ replicate 128 0 :: heap) ! (0 + 0) = 1"
  by (simp add: ScanCPUBlock_def nth_append)

section \<open>The segmented-scan driver: claims\<close>

text \<open>
  Where the driver does what its description says. For an input array of at least 150
  elements whose length \<open>N\<close> is a multiple of the block size \<open>B\<close>, with the output buffer
  apart from the input buffer, the driver returns and every output position in \<open>[0, N)\<close>
  holds the scan of its own segment of \<open>B\<close> elements, when it computes the inclusive scan
  or no thread runs ahead of the reader of its slot.
\<close>

lemma ScanGPUBlock_segmented_scan_from_150:
  assumes "0 < B" and "B \<le> 1024" and "B dvd N" and "150 \<le> N" and "N < 150 * 2 ^ 31"
    and "inp + N \<le> length h" and "out + N \<le> length h"
    and "out + N \<le> inp \<or> inp + N \<le> out"
    and "B \<le> maxThreads"
    and "\<And>b i t. scantype = Exclusive \<Longrightarrow> \<not> ahead b i t"
  shows "\<exists>h'. ScanGPUBlock ahead maxThreads scantype out inp N (int B) h = Some (Inr h') \<and>
     (\<forall>p<N. h' ! (out + p) =
        (if scantype = Exclusive
         then (\<Sum>k = (p div B) * B..<p. h ! (inp + k))
         else (\<Sum>k = (p div B) * B..p. h ! (inp + k))))"
proof -
  have run: "ScanGPUBlock ahead maxThreads scantype out inp N (int B) h =
      Some (Inr (segmented_scan_heap scantype B out inp N 0 h))"
    using assms by (intro ScanGPUBlock_launched) simp_all
  have "segmented_scan_heap scantype B out inp N 0 h ! (out + p) =
      (if scantype = Exclusive
       then (\<Sum>k = (p div B) * B..<p. h ! (inp + k))
       else (\<Sum>k = (p div B) * B..p. h ! (inp + k)))" if "p < N" for p
  proof -
    have "segmented_scan_heap scantype B out inp N 0 h ! (out + p) =
        segment_value scantype B inp h (out + p - out)"
      using that assms(7) by (intro segmented_scan_heap_inside) simp_all
    then show ?thesis
      by (simp add: segment_value_def atLeastLessThanSuc_atLeastAtMost)
  qed
  with run show ?thesis by blast
qed

text \<open>
  The shuffle driver with one of the thread counts its switch handles runs the shuffle
  kernel, which has no shared buffer: its result is that of the shared-memory driver on
  a device where no thread runs ahead. The two drivers give the same result, the same
  memory or the same fault, for every thread count when they compute the inclusive scan
  or no thread of the shared-memory kernel runs ahead of the reader of its slot.
\<close>

lemma launch_shuffle_kernel:
  assumes "0 < cThreads \<Longrightarrow> nat cThreads \<le> 1024"
    and "\<And>b i t. scantype = Exclusive \<Longrightarrow> \<not> ahead b i t"
  shows "launch maxThreads cBlocks cThreads
       (ScanGPUBlockShuffle_kernel scantype logBlockSize out inp N) h =
     launch maxThreads cBlocks cThreads (ScanGPUBlock_kernel ahead scantype out inp N) h"
proof -
  have "ScanGPUBlockShuffle_kernel scantype logBlockSize out inp N B =
      ScanGPUBlock_kernel ahead scantype out inp N B" if "0 < B" "B \<le> 1024" for B
    using assms(2)
    by (intro ext)
      (simp add: ScanGPUBlockShuffle_kernel_def ScanGPUBlock_kernel_def
        kernel_loops_equal [OF that])
  from this [of "nat cThreads"] assms(1) show ?thesis
    by (simp add: launch_def)
qed

lemma ScanGPUBlockShuffle_as_shared_memory:
  assumes "cThreads = 128 \<or> cThreads = 256 \<or> cThreads = 512 \<or> cThreads = 1024"
  shows "ScanGPUBlockShuffle ahead maxThreads scantype out inp N cThreads h =
     ScanGPUBlock (\<lambda>b i t. False) maxThreads scantype out inp N cThreads h"
  using assms
  by (auto simp: ScanGPUBlockShuffle_def ScanGPUBlock_def
      launch_shuffle_kernel [where ahead = "\<lambda>b i t. False"])

lemma ScanGPUBlockShuffle_same_result_when_not_ahead:
  assumes "\<And>b i t. scantype = Exclusive \<Longrightarrow> \<not> ahead b i t"
  shows "ScanGPUBlockShuffle ahead maxThreads scantype out inp N cThreads h =
     ScanGPUBlock ahead maxThreads scantype out inp N cThreads h"
  using assms
  by (simp add: ScanGPUBlockShuffle_def ScanGPUBlock_def
      launch_shuffle_kernel [where ahead = ahead])

text \<open>
  Claim C2. The claim is that for every input array whose length \<open>N\<close> is a multiple of
  the block size \<open>B\<close> the driver writes every output position in \<open>[0, N)\<close>. The code departs
  from it on the array of 128 elements scanned with blocks of 128 threads, for either
  scan type and under every schedule: the host wrapper computes \<open>(int) (128 / 150) = 0\<close>
  blocks, the launch of the empty grid is refused, no thread runs and no output position
  is written.
\<close>

theorem ScanGPUBlock_128_not_launched:
  "(128::nat) dvd 128 \<and>
   ScanGPUBlock ahead 1024 scantype 128 0 128 128 (replicate 128 1 @ replicate 128 0) =
     Some (Inl InvalidConfiguration)"
  by (simp add: ScanGPUBlock_def launch_def cBlocks_of_def)





text \<open>
  Claim C5. The claim is that the shared-memory driver and the shuffle driver produce
  identical output arrays for every input and supported block size, for both scan types.
  The code departs from it in the exclusive scan. On 256 ones scanned with blocks of 128
  threads one block is launched and runs two iterations. When thread 31, the last of the
  first warp, runs ahead in the first iteration, thread 32 of the shared-memory kernel
  finds in slot 31 the next input of thread 31, \<^verbatim>\<open>in[159] = 1\<close>, and the driver writes 1 to
  output position 32; the shuffle driver writes 32 there, the sum of the 32 inputs before
  the position.
\<close>

theorem ScanGPUBlock_exclusive_not_as_shuffle:
  "(\<exists>h'. ScanGPUBlock (\<lambda>b i t. b = 0 \<and> i = 0 \<and> t = 31) 1024 Exclusive 256 0 256 128
            (replicate 256 1 @ replicate 256 0) = Some (Inr h') \<and>
      h' ! (256 + 32) = 1) \<and>
   (\<exists>h'. ScanGPUBlockShuffle (\<lambda>b i t. b = 0 \<and> i = 0 \<and> t = 31) 1024 Exclusive 256 0 256 128
            (replicate 256 1 @ replicate 256 0) = Some (Inr h') \<and>
      h' ! (256 + 32) = 32) \<and>
   ScanGPUBlock (\<lambda>b i t. b = 0 \<and> i = 0 \<and> t = 31) 1024 Exclusive 256 0 256 128
       (replicate 256 1 @ replicate 256 0) \<noteq>
     ScanGPUBlockShuffle (\<lambda>b i t. b = 0 \<and> i = 0 \<and> t = 31) 1024 Exclusive 256 0 256 128
       (replicate 256 1 @ replicate 256 0)"
proof -
  let ?ahead = "\<lambda>b i t :: nat. b = 0 \<and> i = 0 \<and> t = 31"
  let ?h = "replicate 256 1 @ replicate 256 0 :: heap"
  have hyps: "(0::nat) < 128" "(128::nat) \<le> 1024"
    "(256::nat) + 256 \<le> 0 \<or> (0::nat) + 256 \<le> 256"
    "(256::nat) \<le> 256" "(256::nat) < 256 + 128"
    by simp_all
  have mem: "0 + 256 \<le> length ?h" "256 + 256 \<le> length ?h" by simp_all
  have "\<exists>h'. ScanGPUBlock ?ahead 1024 Exclusive 256 0 256 (int 128) ?h = Some (Inr h') \<and>
      h' ! (256 + Suc 31) = ?h ! (0 + 128 + 31)"
    by (rule ScanGPUBlock_slot_overwritten [OF hyps, of 1 _ ?ahead 31 1024]) simp_all
  then obtain h1 where
    shared: "ScanGPUBlock ?ahead 1024 Exclusive 256 0 256 128 ?h = Some (Inr h1)"
    and "h1 ! (256 + Suc 31) = ?h ! (0 + 128 + 31)"
    by auto
  then have v1: "h1 ! (256 + 32) = 1" by (simp add: nth_append)
  have "ScanGPUBlockShuffle ?ahead 1024 Exclusive 256 0 256 128 ?h =
      ScanGPUBlock (\<lambda>b i t. False) 1024 Exclusive 256 0 256 128 ?h"
    by (rule ScanGPUBlockShuffle_as_shared_memory) simp
  also have "\<dots> = ScanGPUBlock (\<lambda>b i t. False) 1024 Exclusive 256 0 256 (int 128) ?h"
    by simp
  also have "\<dots> = Some (Inr (segmented_scan_heap Exclusive 128 256 0 256 0 ?h))"
    by (rule ScanGPUBlock_launched [OF hyps]) simp_all
  finally have shuffle: "ScanGPUBlockShuffle ?ahead 1024 Exclusive 256 0 256 128 ?h =
      Some (Inr (segmented_scan_heap Exclusive 128 256 0 256 0 ?h))" .
  have "segmented_scan_heap Exclusive 128 256 0 256 0 ?h ! (256 + 32) =
      segment_value Exclusive 128 0 ?h (256 + 32 - 256)"
    by (rule segmented_scan_heap_inside) simp_all
  also have "\<dots> = (\<Sum>k = (0::nat)..<32. ?h ! (0 + k))"
    by (simp add: segment_value_def)
  also have "\<dots> = (\<Sum>k = (0::nat)..<32. (1::int32))"
    by (rule sum.cong) (simp_all add: nth_append)
  also have "\<dots> = 32" by simp
  finally have v2: "segmented_scan_heap Exclusive 128 256 0 256 0 ?h ! (256 + 32) = 32" .
  from shared v1 shuffle v2 show ?thesis by auto
qed



section \<open>The test harness: claim\<close>

text \<open>
  Claim C10. The outcome of \<^verbatim>\<open>TestScanBlock\<close> does not depend on the random number
  generator: two runs with the same \<open>N\<close>, thread count, scan functions and environment
  give the same outcome whatever the generators \<open>rand1\<close>, \<open>rand2\<close> and their states (seeds)
  \<open>r1\<close>, \<open>r2\<close> are, and the input array the scans are run on is \<open>0, 1, ..., N - 1\<close>: the
  values \<^verbatim>\<open>RandomArray\<close> wrote are overwritten before any scan runs.
\<close>

theorem TestScanBlock_independent_of_rand:
  "TestScanBlock env rand1 r1 pfnScanCPU pfnScanGPU N numThreads junk =
     TestScanBlock env rand2 r2 pfnScanCPU pfnScanGPU N numThreads junk \<and>
   (\<exists>h r'. TestScanBlock_inCPU rand1 r1 N junk = Inr (h, r') \<and>
      take N h = map word_of_nat [0..<N])"
proof
  from TestScanBlock_inCPU_result [of rand1 r1 N junk] obtain r1' where
    i1: "TestScanBlock_inCPU rand1 r1 N junk =
      Inr (map (\<lambda>a. if a < N then word_of_nat a else junk a) [0..<3 * N], r1')"
    by blast
  from TestScanBlock_inCPU_result [of rand2 r2 N junk] obtain r2' where
    i2: "TestScanBlock_inCPU rand2 r2 N junk =
      Inr (map (\<lambda>a. if a < N then word_of_nat a else junk a) [0..<3 * N], r2')"
    by blast
  show "TestScanBlock env rand1 r1 pfnScanCPU pfnScanGPU N numThreads junk =
      TestScanBlock env rand2 r2 pfnScanCPU pfnScanGPU N numThreads junk"
    by (simp only: TestScanBlock_def i1 i2 sum.case prod.case)
  have "take N (map (\<lambda>a. if a < N then word_of_nat a else junk a) [0..<3 * N]) =
      map word_of_nat [0..<N]"
    by (rule nth_equalityI) simp_all
  with i1 show "\<exists>h r'. TestScanBlock_inCPU rand1 r1 N junk = Inr (h, r') \<and>
      take N h = map word_of_nat [0..<N]"
    by blast
qed

end
